theory Spec2Isabelle
  imports Main
begin

section \<open>Data model (types.ts, src/unnamed/part_001)\<close>

datatype JobStatus = IDLE | PENDING | PROCESSING | COMPLETED | FAILED

datatype InputType = TEXT | IMAGE

datatype VeoModel = FAST | QUALITY

text \<open>The string literal types \<^verbatim>\<open>'16:9' | '9:16'\<close> and \<^verbatim>\<open>'720p' | '1080p'\<close>.\<close>

datatype AspectRatio = AR_16_9 | AR_9_16

datatype Resolution = R_720p | R_1080p

text \<open>A browser \<^verbatim>\<open>File\<close>: its name, its mime type and its bytes.\<close>

record File =
  name :: string
  type' :: string
  bytes :: string

text \<open>
  The interface \<^verbatim>\<open>Job\<close>. An optional field is an \<open>option\<close> (\<open>None\<close> for
  \<^verbatim>\<open>undefined\<close>; \<^verbatim>\<open>imageFile\<close> is \<open>None\<close> for \<^verbatim>\<open>null\<close> as well,
  the code only tests it for truthiness). Times are milliseconds.
\<close>

record Job =
  id' :: string
  createdAt :: nat
  status :: JobStatus
  prompt :: string
  inputType :: InputType
  model :: VeoModel
  aspectRatio :: AspectRatio
  resolution :: Resolution
  imageFile :: "File option"
  videoUri :: "string option"
  error :: "string option"
  progress :: "nat option"
  startTime :: "nat option"
  progressMessage :: "string option"

text \<open>
  \<^verbatim>\<open>Partial<Job>\<close>: an object literal is the list of its \<^verbatim>\<open>key: value\<close> entries. A
  key whose value is \<^verbatim>\<open>undefined\<close> is present and carries \<open>None\<close>.
\<close>

datatype JobField =
    Id string
  | CreatedAt nat
  | Status JobStatus
  | Prompt string
  | InputTypeF InputType
  | Model VeoModel
  | AspectRatioF AspectRatio
  | ResolutionF Resolution
  | ImageFile "File option"
  | VideoUri "string option"
  | Error "string option"
  | Progress "nat option"
  | StartTime "nat option"
  | ProgressMessage "string option"

fun assign :: "Job \<Rightarrow> JobField \<Rightarrow> Job" where
  "assign j (Id v) = j\<lparr>id' := v\<rparr>"
| "assign j (CreatedAt v) = j\<lparr>createdAt := v\<rparr>"
| "assign j (Status v) = j\<lparr>status := v\<rparr>"
| "assign j (Prompt v) = j\<lparr>prompt := v\<rparr>"
| "assign j (InputTypeF v) = j\<lparr>inputType := v\<rparr>"
| "assign j (Model v) = j\<lparr>model := v\<rparr>"
| "assign j (AspectRatioF v) = j\<lparr>aspectRatio := v\<rparr>"
| "assign j (ResolutionF v) = j\<lparr>resolution := v\<rparr>"
| "assign j (ImageFile v) = j\<lparr>imageFile := v\<rparr>"
| "assign j (VideoUri v) = j\<lparr>videoUri := v\<rparr>"
| "assign j (Error v) = j\<lparr>error := v\<rparr>"
| "assign j (Progress v) = j\<lparr>progress := v\<rparr>"
| "assign j (StartTime v) = j\<lparr>startTime := v\<rparr>"
| "assign j (ProgressMessage v) = j\<lparr>progressMessage := v\<rparr>"

text \<open>The object spread \<^verbatim>\<open>{ ...j, ...updates }\<close>: the entries of \<open>updates\<close> in order.\<close>

definition spread :: "Job \<Rightarrow> JobField list \<Rightarrow> Job" where
  "spread j updates = foldl assign j updates"

section \<open>Job store (App.tsx, src/unnamed/part_000, lines 43 to 68)\<close>

text \<open>
  The store is the React state \<^verbatim>\<open>jobs\<close>; each operation is the function handed to
  \<^verbatim>\<open>setJobs\<close>, applied to the previous array.
\<close>

definition addJob :: "Job list \<Rightarrow> Job \<Rightarrow> Job list" where
  "addJob prev job = prev @ [job]"

definition removeJob :: "Job list \<Rightarrow> string \<Rightarrow> Job list" where
  "removeJob prev i = filter (\<lambda>j. id' j \<noteq> i) prev"

text \<open>\<open>uuid\<close> is what \<^verbatim>\<open>uuidv4()\<close> returned and \<open>now\<close> what \<^verbatim>\<open>Date.now()\<close> returned.\<close>

definition duplicateJob :: "Job list \<Rightarrow> Job \<Rightarrow> string \<Rightarrow> nat \<Rightarrow> Job list" where
  "duplicateJob prev job uuid now =
     (let newJob = job\<lparr>id' := uuid, createdAt := now, status := IDLE, error := None,
                       videoUri := None, progressMessage := None, startTime := None\<rparr>
      in prev @ [newJob])"

definition updateJob :: "Job list \<Rightarrow> string \<Rightarrow> JobField list \<Rightarrow> Job list" where
  "updateJob prev i updates = map (\<lambda>j. if id' j = i then spread j updates else j) prev"

section \<open>Job list (src/components/JobQueue.tsx, lines 87 to 128)\<close>

text \<open>The delete button of a job's card is rendered under this condition only.\<close>

definition deleteButtonRendered :: "Job \<Rightarrow> bool" where
  "deleteButtonRendered job =
     (status job = IDLE \<or> status job = FAILED \<or> status job = COMPLETED)"

text \<open>
  The user's remove action on the \<open>k\<close>-th card of the list: the click reaches
  \<^verbatim>\<open>onRemoveJob(job.id)\<close> when the card exists and has the button.
\<close>

definition clickRemove :: "Job list \<Rightarrow> nat \<Rightarrow> Job list" where
  "clickRemove jobs k =
     (if k < length jobs \<and> deleteButtonRendered (jobs ! k)
      then removeJob jobs (id' (jobs ! k)) else jobs)"

text \<open>The duplicate button is on every card: \<^verbatim>\<open>onDuplicateJob(job)\<close>.\<close>

definition clickDuplicate :: "Job list \<Rightarrow> nat \<Rightarrow> string \<Rightarrow> nat \<Rightarrow> Job list" where
  "clickDuplicate jobs k uuid now =
     (if k < length jobs then duplicateJob jobs (jobs ! k) uuid now else jobs)"

section \<open>Job form (src/components/JobForm.tsx, lines 32 to 45)\<close>

text \<open>
  The job that one iteration of the loop of \<^verbatim>\<open>handleSubmit\<close> builds and hands to
  \<^verbatim>\<open>onAddJob\<close>, from the form's fields, \<^verbatim>\<open>uuidv4()\<close> and \<^verbatim>\<open>Date.now()\<close>. The
  fields it does not mention are \<^verbatim>\<open>undefined\<close>.
\<close>

definition newJob ::
  "string \<Rightarrow> nat \<Rightarrow> string \<Rightarrow> InputType \<Rightarrow> VeoModel \<Rightarrow> AspectRatio \<Rightarrow> File option \<Rightarrow> Job" where
  "newJob uuid now p it m ar f =
     \<lparr>id' = uuid, createdAt = now, status = IDLE, prompt = p, inputType = it, model = m,
      aspectRatio = ar, resolution = R_720p, imageFile = f, videoUri = None, error = None,
      progress = None, startTime = None, progressMessage = None\<rparr>"

section \<open>Remote generation (services/geminiService.ts, src/unnamed/part_002)\<close>

text \<open>
  A thrown or rejected value, as far as the catch block of \<^verbatim>\<open>processQueue\<close> reads
  it (its parameter is \<^verbatim>\<open>error: any\<close>). \<open>Nullish\<close> is \<^verbatim>\<open>undefined\<close> or
  \<^verbatim>\<open>null\<close>, whose \<^verbatim>\<open>message\<close> cannot be read. Every other value has a
  \<^verbatim>\<open>message\<close> property: \<open>Absent\<close> when it is \<^verbatim>\<open>undefined\<close>, \<^verbatim>\<open>null\<close> or
  another falsy value that is not a string, \<open>Str\<close> when it is a string, and
  \<open>NonString\<close> when it is a truthy value that is not a string, on which
  \<^verbatim>\<open>includes\<close> cannot be called. \<^verbatim>\<open>new Error(m)\<close> is \<open>Thrown (Str m)\<close>.
\<close>

datatype messageValue = Absent | Str string | NonString

datatype thrown = Nullish | Thrown messageValue

record ImageParam =
  imageBytes :: "string option"
  mimeType :: string

record VideoConfig =
  numberOfVideos :: nat
  cfg_aspectRatio :: AspectRatio
  cfg_resolution :: Resolution

text \<open>The argument of \<^verbatim>\<open>ai.models.generateVideos\<close>; an absent key is \<open>None\<close>.\<close>

record VideoRequest =
  req_model :: VeoModel
  req_prompt :: "string option"
  req_image :: "ImageParam option"
  config :: VideoConfig

text \<open>
  The operation handle, as far as the code reads it: \<^verbatim>\<open>done\<close>, \<^verbatim>\<open>error\<close> (with
  its optional message) and \<^verbatim>\<open>response?.generatedVideos?.[0]?.video?.uri\<close>.
\<close>

record Operation =
  op_done :: bool
  op_error :: "string option option"
  op_videoUri :: "string option"

text \<open>
  What the function reads from outside: \<^verbatim>\<open>process.env.API_KEY\<close>, the
  \<^verbatim>\<open>FileReader\<close> and the two calls of the SDK. A call either throws or returns. The
  poll is given the attempt number, since the service answers differently over time.
\<close>

record Env =
  API_KEY :: "string option"
  readAsDataURL :: "File \<Rightarrow> thrown + string"
  generateVideos :: "VideoRequest \<Rightarrow> thrown + Operation"
  getVideosOperation :: "nat \<Rightarrow> Operation \<Rightarrow> thrown + Operation"

text \<open>\<^verbatim>\<open>s.split(c)\<close> for a one-character separator.\<close>

fun split :: "char \<Rightarrow> string \<Rightarrow> string list" where
  "split c [] = [[]]"
| "split c (x # xs) =
     (if x = c then [] # split c xs
      else (case split c xs of [] \<Rightarrow> [[x]] | y # ys \<Rightarrow> (x # y) # ys))"

text \<open>Array indexing: \<^verbatim>\<open>undefined\<close> out of range.\<close>

definition at :: "'a list \<Rightarrow> nat \<Rightarrow> 'a option" where
  "at xs n = (if n < length xs then Some (xs ! n) else None)"

definition fileToBas64 :: "Env \<Rightarrow> File \<Rightarrow> thrown + string option" where
  "fileToBas64 env file =
     (case readAsDataURL env file of
        Inl e \<Rightarrow> Inl e
      | Inr result \<Rightarrow> Inr (at (split CHR '','' result) 1))"

text \<open>A natural number in a template literal: its decimal digits.\<close>

fun string_of_nat :: "nat \<Rightarrow> string" where
  "string_of_nat n =
     (if n < 10 then [''0123456789'' ! n]
      else string_of_nat (n div 10) @ [''0123456789'' ! (n mod 10)])"

declare string_of_nat.simps [simp del]

text \<open>
  The request of lines 34 to 64: the image branch reads the file first, which may reject.
\<close>

definition videoRequest :: "Env \<Rightarrow> Job \<Rightarrow> thrown + VideoRequest" where
  "videoRequest env job =
     (let commonConfig =
        \<lparr>numberOfVideos = 1, cfg_aspectRatio = aspectRatio job, cfg_resolution = R_720p\<rparr>
      in case (if inputType job = IMAGE then imageFile job else None) of
           Some file \<Rightarrow>
             (case fileToBas64 env file of
                Inl e \<Rightarrow> Inl e
              | Inr base64Image \<Rightarrow>
                  Inr \<lparr>req_model = model job,
                       req_prompt = (if prompt job = [] then None else Some (prompt job)),
                       req_image = Some \<lparr>imageBytes = base64Image, mimeType = type' file\<rparr>,
                       config = commonConfig\<rparr>)
         | None \<Rightarrow>
             Inr \<lparr>req_model = model job, req_prompt = Some (prompt job), req_image = None,
                  config = commonConfig\<rparr>)"

text \<open>
  The polling loop of lines 71 to 80, with the progress messages sent so far. It ends
  when an operation is done or a poll throws; it need not end, and then the value is
  \<open>None\<close>.
\<close>

partial_function (option) pollLoop ::
  "Env \<Rightarrow> nat \<Rightarrow> Operation \<Rightarrow> string list \<Rightarrow> (string list \<times> (thrown + Operation)) option" where
  "pollLoop env attempts operation msgs =
     (if op_done operation then Some (msgs, Inr operation)
      else (case getVideosOperation env (attempts + 1) operation of
              Inl e \<Rightarrow>
                Some (msgs @ [''Generating video... (''
                        @ string_of_nat ((attempts + 1) * (5000 div 1000)) @ ''s elapsed)''],
                      Inl e)
            | Inr operation' \<Rightarrow>
                pollLoop env (attempts + 1) operation'
                  (msgs @ [''Generating video... (''
                     @ string_of_nat ((attempts + 1) * (5000 div 1000)) @ ''s elapsed)''])))"

declare pollLoop.simps [code]

text \<open>
  What the service has answered after \<open>n\<close> polls of an operation, each poll handing the
  last answer back to \<^verbatim>\<open>getVideosOperation\<close>; the first of them has the attempt
  number \<open>attempts + 1\<close>.
\<close>

fun polled :: "Env \<Rightarrow> nat \<Rightarrow> nat \<Rightarrow> Operation \<Rightarrow> thrown + Operation" where
  "polled env attempts 0 operation = Inr operation"
| "polled env attempts (Suc n) operation =
     (case getVideosOperation env (attempts + 1) operation of
        Inl e \<Rightarrow> Inl e
      | Inr operation' \<Rightarrow> polled env (attempts + 1) n operation')"

text \<open>Lines 84 to 98: the checks on the finished operation and the returned string.\<close>

definition videoResult :: "string \<Rightarrow> Operation \<Rightarrow> thrown + string" where
  "videoResult apiKey operation =
     (case op_error operation of
        Some m \<Rightarrow>
          Inl (Thrown (Str (case m of
                 None \<Rightarrow> ''Unknown error during video generation''
               | Some s \<Rightarrow> if s = [] then ''Unknown error during video generation'' else s)))
      | None \<Rightarrow>
          (case op_videoUri operation of
             None \<Rightarrow> Inl (Thrown (Str ''No video URI returned from API''))
           | Some uri \<Rightarrow>
               if uri = [] then Inl (Thrown (Str ''No video URI returned from API''))
               else Inr (uri @ ''&key='' @ apiKey)))"

text \<open>
  What one call does: the requests it submitted, the messages it gave to
  \<^verbatim>\<open>onProgress\<close> (the scheduler always passes one), and how the promise settled.
\<close>

record GenResult =
  submitted :: "VideoRequest list"
  messages :: "string list"
  outcome :: "thrown + string"

definition noApiKey :: GenResult where
  "noApiKey = \<lparr>submitted = [], messages = [],
      outcome = Inl (Thrown (Str ''API Key not found. Please select a key.''))\<rparr>"

definition generateVideoForJob :: "Env \<Rightarrow> Job \<Rightarrow> GenResult option" where
  "generateVideoForJob env job =
     (case API_KEY env of
        None \<Rightarrow> Some noApiKey
      | Some apiKey \<Rightarrow>
          if apiKey = [] then Some noApiKey
          else (case videoRequest env job of
             Inl e \<Rightarrow>
               Some \<lparr>submitted = [], messages = [''Uploading input data...''], outcome = Inl e\<rparr>
           | Inr req \<Rightarrow>
               (case generateVideos env req of
                  Inl e \<Rightarrow>
                    Some \<lparr>submitted = [req],
                          messages = [''Uploading input data...'',
                                      ''Sending generation request...''],
                          outcome = Inl e\<rparr>
                | Inr operation \<Rightarrow>
                    (case pollLoop env 0 operation
                            [''Uploading input data...'', ''Sending generation request...''] of
                       None \<Rightarrow> None
                     | Some (msgs, Inl e) \<Rightarrow>
                         Some \<lparr>submitted = [req], messages = msgs, outcome = Inl e\<rparr>
                     | Some (msgs, Inr operation') \<Rightarrow>
                         Some \<lparr>submitted = [req],
                               messages = msgs @ [''Finalizing download...''],
                               outcome = videoResult apiKey operation'\<rparr>))))"

text \<open>
  The calls of \<^verbatim>\<open>ai.models.generateVideos\<close> that one call of
  \<^verbatim>\<open>generateVideoForJob\<close> makes (lines 24 to 64), whether or not the polling
  that follows them ends.
\<close>

definition submittedRequests :: "Env \<Rightarrow> Job \<Rightarrow> VideoRequest list" where
  "submittedRequests env job =
     (case API_KEY env of
        None \<Rightarrow> []
      | Some apiKey \<Rightarrow>
          if apiKey = [] then []
          else (case videoRequest env job of Inl e \<Rightarrow> [] | Inr req \<Rightarrow> [req]))"

section \<open>Scheduler (App.tsx, src/unnamed/part_000, lines 8 to 124)\<close>

definition MAX_CONCURRENT_JOBS :: nat where
  "MAX_CONCURRENT_JOBS = 4"

text \<open>
  \<^verbatim>\<open>processQueue\<close> up to its \<^verbatim>\<open>await\<close>, on the store the tick sees: the store
  after the reservation, and the job handed to \<^verbatim>\<open>generateVideoForJob\<close>, if any.
\<close>

definition processQueue :: "Job list \<Rightarrow> nat \<Rightarrow> Job list \<times> Job option" where
  "processQueue jobs now =
     (let processingCount = length (filter (\<lambda>j. status j = PROCESSING) jobs) in
      if processingCount \<ge> MAX_CONCURRENT_JOBS then (jobs, None)
      else (case find (\<lambda>j. status j = IDLE) jobs of
              None \<Rightarrow> (jobs, None)
            | Some nextJob \<Rightarrow>
                (updateJob jobs (id' nextJob)
                   [Status PROCESSING, StartTime (Some now),
                    ProgressMessage (Some ''Initializing...'')],
                 Some nextJob)))"

text \<open>\<^verbatim>\<open>s.includes(t)\<close>: \<open>t\<close> occurs in \<open>s\<close>, case-sensitively.\<close>

fun startsWith :: "string \<Rightarrow> string \<Rightarrow> bool" where
  "startsWith s [] = True"
| "startsWith [] (c # cs) = False"
| "startsWith (x # xs) (c # cs) = (x = c \<and> startsWith xs cs)"

fun includes_str :: "string \<Rightarrow> string \<Rightarrow> bool" where
  "includes_str [] t = (t = [])"
| "includes_str (x # xs) t = (startsWith (x # xs) t \<or> includes_str xs t)"

text \<open>
  Lines 104 to 107, up to the test: \<^verbatim>\<open>error.message || 'Unknown error'\<close>, a string
  on which \<^verbatim>\<open>includes\<close> can be called. Reading the message of a nullish value throws,
  and so does the call of \<^verbatim>\<open>includes\<close> on a value that is not a string: the value is
  \<open>None\<close> then, and the catch block ends before it changes anything.
\<close>

fun errorMessageOf :: "thrown \<Rightarrow> string option" where
  "errorMessageOf Nullish = None"
| "errorMessageOf (Thrown Absent) = Some ''Unknown error''"
| "errorMessageOf (Thrown (Str m)) = Some (if m = [] then ''Unknown error'' else m)"
| "errorMessageOf (Thrown NonString) = None"

definition isApiKeyError :: "string \<Rightarrow> bool" where
  "isApiKeyError errorMessage =
     (includes_str errorMessage ''Requested entity was not found''
      \<or> includes_str errorMessage ''API key'')"


text \<open>
  The application state: the store, the two flags, and the calls of
  \<^verbatim>\<open>generateVideoForJob\<close> whose promise is pending, by job id.
\<close>

record App =
  jobs :: "Job list"
  apiKeyReady :: bool
  isQueueRunning :: bool
  inFlight :: "string list"

definition initial :: App where
  "initial = \<lparr>jobs = [], apiKeyReady = False, isQueueRunning = False, inFlight = []\<rparr>"

text \<open>The rest of \<^verbatim>\<open>processQueue\<close>: after the promise resolved, and the catch block.\<close>

definition onFulfilled :: "App \<Rightarrow> string \<Rightarrow> string \<Rightarrow> App" where
  "onFulfilled s jobId uri =
     s\<lparr>jobs := updateJob (jobs s) jobId
          [Status COMPLETED, VideoUri (Some uri), ProgressMessage (Some ''Completed'')]\<rparr>"

definition onRejected :: "App \<Rightarrow> string \<Rightarrow> thrown \<Rightarrow> App" where
  "onRejected s jobId e =
     (case errorMessageOf e of
        None \<Rightarrow> s
      | Some errorMessage \<Rightarrow>
          if isApiKeyError errorMessage
          then s\<lparr>apiKeyReady := False, isQueueRunning := False,
                 jobs := updateJob (jobs s) jobId
                   [Status FAILED,
                    Error (Some ''API Key Invalid or Expired. Please select key again.'')]\<rparr>
          else s\<lparr>jobs := updateJob (jobs s) jobId [Status FAILED, Error (Some errorMessage)]\<rparr>)"

text \<open>
  What happens to the application, one event at a time. The form, the list and the
  toggle are rendered only while \<^verbatim>\<open>apiKeyReady\<close> holds; the interval that ticks exists
  only while the queue runs and the key is ready, and each tick sees the current store. A
  pending call reports progress and settles once.
\<close>

datatype Event =
    KeyReady
  | ToggleQueue
  | SubmitJob string nat string InputType VeoModel AspectRatio "File option"
  | ClickRemove nat
  | ClickDuplicate nat string nat
  | Tick nat
  | OnProgress string string
  | Settled string "thrown + string"

fun step :: "App \<Rightarrow> Event \<Rightarrow> App" where
  "step s KeyReady = s\<lparr>apiKeyReady := True\<rparr>"
| "step s ToggleQueue =
     (if apiKeyReady s then s\<lparr>isQueueRunning := \<not> isQueueRunning s\<rparr> else s)"
| "step s (SubmitJob uuid now p it m ar f) =
     (if apiKeyReady s then s\<lparr>jobs := addJob (jobs s) (newJob uuid now p it m ar f)\<rparr> else s)"
| "step s (ClickRemove k) =
     (if apiKeyReady s then s\<lparr>jobs := clickRemove (jobs s) k\<rparr> else s)"
| "step s (ClickDuplicate k uuid now) =
     (if apiKeyReady s then s\<lparr>jobs := clickDuplicate (jobs s) k uuid now\<rparr> else s)"
| "step s (Tick now) =
     (if \<not> isQueueRunning s \<or> \<not> apiKeyReady s then s
      else (case processQueue (jobs s) now of
              (jobs', None) \<Rightarrow> s\<lparr>jobs := jobs'\<rparr>
            | (jobs', Some nextJob) \<Rightarrow>
                s\<lparr>jobs := jobs', inFlight := inFlight s @ [id' nextJob]\<rparr>))"
| "step s (OnProgress jobId msg) =
     (if jobId \<in> set (inFlight s)
      then s\<lparr>jobs := updateJob (jobs s) jobId [ProgressMessage (Some msg)]\<rparr> else s)"
| "step s (Settled jobId res) =
     (if jobId \<in> set (inFlight s)
      then (case res of
              Inr uri \<Rightarrow> onFulfilled s jobId uri
            | Inl e \<Rightarrow> onRejected s jobId e)\<lparr>inFlight := remove1 jobId (inFlight s)\<rparr>
      else s)"


definition run :: "App \<Rightarrow> Event list \<Rightarrow> App" where
  "run s evs = foldl step s evs"

text \<open>The identifiers \<^verbatim>\<open>uuidv4()\<close> returned, in order.\<close>

fun eventUuids :: "Event \<Rightarrow> string list" where
  "eventUuids (SubmitJob uuid now p it m ar f) = [uuid]"
| "eventUuids (ClickDuplicate k uuid now) = [uuid]"
| "eventUuids _ = []"

definition uuids :: "Event list \<Rightarrow> string list" where
  "uuids evs = concat (map eventUuids evs)"

section \<open>Invariants of the store\<close>

text \<open>The number of jobs in Processing, as \<^verbatim>\<open>processQueue\<close> counts it.\<close>

definition processingCount :: "Job list \<Rightarrow> nat" where
  "processingCount js = length (filter (\<lambda>j. status j = PROCESSING) js)"

text \<open>What the status of a job says about its result fields.\<close>

definition jobOk :: "Job \<Rightarrow> bool" where
  "jobOk j =
     ((videoUri j \<noteq> None) = (status j = COMPLETED)
      \<and> (error j \<noteq> None) = (status j = FAILED)
      \<and> status j \<noteq> PENDING)"

text \<open>
  The invariant of the store \<open>js\<close> and the pending calls \<open>fl\<close>, where \<open>U\<close> holds
  the identifiers generated so far: ids are unique, every pending call belongs to a job
  of the store, that job is Processing, and the cap holds.
\<close>

definition inv :: "string set \<Rightarrow> Job list \<Rightarrow> string list \<Rightarrow> bool" where
  "inv U js fl =
     (distinct (map id' js) \<and> set (map id' js) \<subseteq> U
      \<and> list_all jobOk js
      \<and> distinct fl \<and> set fl \<subseteq> U \<and> set fl \<subseteq> set (map id' js)
      \<and> list_all (\<lambda>j. id' j \<in> set fl \<longrightarrow> status j = PROCESSING) js
      \<and> processingCount js \<le> MAX_CONCURRENT_JOBS)"


text \<open>
  Two jobs, by id, keep their launch order: the second is not ahead of the first in the
  store, and it has not left Idle while the first, still in the store, is Idle.
\<close>

definition fifoInv :: "string \<Rightarrow> string \<Rightarrow> Job list \<Rightarrow> bool" where
  "fifoInv ida idb js =
     ((ida \<in> set (map id' js) \<longrightarrow> idb \<notin> set (takeWhile (\<lambda>x. x \<noteq> ida) (map id' js)))
      \<and> (\<forall>ja\<in>set js. \<forall>jb\<in>set js.
            id' ja = ida \<and> id' jb = idb \<and> status jb \<noteq> IDLE \<longrightarrow> status ja \<noteq> IDLE))"

section \<open>Example runs\<close>

text \<open>Five submissions, the queue started, five ticks: the fifth tick finds the cap.\<close>

definition demoEvents :: "Event list" where
  "demoEvents =
     [KeyReady,
      SubmitJob ''a'' 1 ''cat'' TEXT FAST AR_16_9 None,
      SubmitJob ''b'' 2 ''dog'' TEXT FAST AR_16_9 None,
      SubmitJob ''c'' 3 ''owl'' TEXT QUALITY AR_9_16 None,
      SubmitJob ''d'' 4 ''fox'' TEXT FAST AR_16_9 None,
      SubmitJob ''e'' 5 ''bee'' TEXT FAST AR_16_9 None,
      ToggleQueue, Tick 10, Tick 11, Tick 12, Tick 13, Tick 14]"

definition jobA :: Job where
  "jobA = newJob ''a'' 1 ''cat'' TEXT FAST AR_16_9 None"

definition jobB :: Job where
  "jobB = newJob ''b'' 2 ''dog'' TEXT FAST AR_16_9 None"

definition twoIdle :: "Event list" where
  "twoIdle =
     [KeyReady,
      SubmitJob ''a'' 1 ''cat'' TEXT FAST AR_16_9 None,
      SubmitJob ''b'' 2 ''dog'' TEXT FAST AR_16_9 None,
      ToggleQueue]"

text \<open>
  A service that answers the first poll with a pending operation and the second with a
  finished one, and a reader that yields a data URL.
\<close>

definition doneOperation :: Operation where
  "doneOperation =
     \<lparr>op_done = True, op_error = None, op_videoUri = Some ''https://videos/1?alt=media''\<rparr>"

definition pendingOperation :: Operation where
  "pendingOperation = \<lparr>op_done = False, op_error = None, op_videoUri = None\<rparr>"

definition demoEnv :: Env where
  "demoEnv = \<lparr>API_KEY = Some ''K'',
     readAsDataURL = (\<lambda>f. Inr (''data:'' @ type' f @ '';base64,'' @ bytes f)),
     generateVideos = (\<lambda>req. Inr pendingOperation),
     getVideosOperation =
       (\<lambda>n operation. Inr (if n < 2 then pendingOperation else doneOperation))\<rparr>"

definition launchedA :: App where
  "launchedA = run initial (twoIdle @ [Tick 10])"

definition jobImg :: Job where
  "jobImg = newJob ''i'' 3 [] IMAGE QUALITY AR_9_16
     (Some \<lparr>name = ''cat.png'', type' = ''image/png'', bytes = ''AAAA''\<rparr>)"

definition imgRequest :: VideoRequest where
  "imgRequest = \<lparr>req_model = QUALITY, req_prompt = None,
     req_image = Some \<lparr>imageBytes = Some ''AAAA'', mimeType = ''image/png''\<rparr>,
     config = \<lparr>numberOfVideos = 1, cfg_aspectRatio = AR_9_16, cfg_resolution = R_720p\<rparr>\<rparr>"

definition imgResult :: GenResult where
  "imgResult = \<lparr>submitted = [imgRequest],
     messages = [''Uploading input data...'', ''Sending generation request...'',
       ''Generating video... (5s elapsed)'', ''Generating video... (10s elapsed)'',
       ''Finalizing download...''],
     outcome = Inr ''https://videos/1?alt=media&key=K''\<rparr>"




definition settledRun :: "Event list" where
  "settledRun = twoIdle @
     [Tick 10, Tick 11,
      Settled ''a'' (Inr ''https://videos/1?alt=media&key=K''),
      Settled ''b'' (Inl (Thrown (Str ''quota exceeded'')))]"

section \<open>Properties of the store operations\<close>

lemma spread_Nil: "spread j [] = j"
  by (simp add: spread_def)

lemma spread_Cons: "spread j (f # fs) = spread (assign j f) fs"
  by (simp add: spread_def)

lemma ids_updateJob:
  "(\<And>j. id' (spread j u) = id' j) \<Longrightarrow> map id' (updateJob js i u) = map id' js"
  by (induction js) (simp_all add: updateJob_def)

lemma count_updateJob_le:
  "(\<And>j. status (spread j u) \<noteq> PROCESSING) \<Longrightarrow>
     processingCount (updateJob js i u) \<le> processingCount js"
  by (induction js) (auto simp: updateJob_def processingCount_def)

lemma count_updateJob_same:
  "(\<And>j. status (spread j u) = status j) \<Longrightarrow>
     processingCount (updateJob js i u) = processingCount js"
  by (induction js) (auto simp: updateJob_def processingCount_def)

lemma updateJob_absent:
  "\<forall>j\<in>set js. id' j \<noteq> i \<Longrightarrow> updateJob js i u = js"
  by (induction js) (simp_all add: updateJob_def)

lemma count_updateJob_Suc:
  "distinct (map id' js) \<Longrightarrow> processingCount (updateJob js i u) \<le> Suc (processingCount js)"
proof (induction js)
  case Nil
  then show ?case by (simp add: updateJob_def processingCount_def)
next
  case (Cons j js)
  show ?case
  proof (cases "id' j = i")
    case True
    with Cons.prems have "\<forall>j'\<in>set js. id' j' \<noteq> i" by (fastforce simp: image_iff)
    then have "updateJob js i u = js" by (rule updateJob_absent)
    then have "updateJob (j # js) i u = spread j u # js"
      using True by (simp add: updateJob_def)
    then show ?thesis by (simp add: processingCount_def)
  next
    case False
    then have "updateJob (j # js) i u = j # updateJob js i u"
      by (simp add: updateJob_def)
    with Cons show ?thesis by (simp add: processingCount_def)
  qed
qed

lemma list_all_updateJob:
  "list_all P js \<Longrightarrow> (\<And>j. j \<in> set js \<Longrightarrow> id' j = i \<Longrightarrow> P j \<Longrightarrow> P (spread j u)) \<Longrightarrow>
     list_all P (updateJob js i u)"
  by (induction js) (auto simp: updateJob_def)

lemma find_IDLE:
  "find (\<lambda>j. status j = IDLE) js = Some x \<Longrightarrow> x \<in> set js \<and> status x = IDLE"
  by (induction js) (auto split: if_splits)

lemma inv_Tick:
  assumes "inv U (jobs s) (inFlight s)"
  shows "inv U (jobs (step s (Tick now))) (inFlight (step s (Tick now)))"
proof (cases "\<not> isQueueRunning s \<or> \<not> apiKeyReady s")
  case True
  with assms show ?thesis by simp
next
  case run: False
  show ?thesis
  proof (cases "processingCount (jobs s) \<ge> MAX_CONCURRENT_JOBS")
    case True
    with run assms show ?thesis
      by (simp add: processQueue_def processingCount_def)
  next
    case free: False
    show ?thesis
    proof (cases "find (\<lambda>j. status j = IDLE) (jobs s)")
      case None
      with run free assms show ?thesis
        by (simp add: processQueue_def processingCount_def)
    next
      case (Some nextJob)
      let ?u = "[Status PROCESSING, StartTime (Some now), ProgressMessage (Some ''Initializing...'')]"
      let ?js = "updateJob (jobs s) (id' nextJob) ?u"
      have st: "jobs (step s (Tick now)) = ?js"
        "inFlight (step s (Tick now)) = inFlight s @ [id' nextJob]"
        using run free Some by (simp_all add: processQueue_def processingCount_def)
      from Some have mem: "nextJob \<in> set (jobs s)" and idle: "status nextJob = IDLE"
        using find_IDLE by blast+
      from assms have d: "distinct (map id' (jobs s))" and sub: "set (map id' (jobs s)) \<subseteq> U"
        and ok: "list_all jobOk (jobs s)" and df: "distinct (inFlight s)"
        and fsub: "set (inFlight s) \<subseteq> U" "set (inFlight s) \<subseteq> set (map id' (jobs s))"
        and fl: "list_all (\<lambda>j. id' j \<in> set (inFlight s) \<longrightarrow> status j = PROCESSING) (jobs s)"
        by (simp_all add: inv_def)
      have ids: "map id' ?js = map id' (jobs s)"
        by (rule ids_updateJob) (simp add: spread_def)
      have notin: "id' nextJob \<notin> set (inFlight s)"
        using fl mem idle by (auto simp: list_all_iff)
      have c: "processingCount ?js \<le> MAX_CONCURRENT_JOBS"
        using count_updateJob_Suc [OF d, of "id' nextJob" ?u] free by simp
      have ok': "list_all jobOk ?js"
      proof (rule list_all_updateJob [OF ok])
        fix j assume "j \<in> set (jobs s)" "id' j = id' nextJob" "jobOk j"
        with d mem have "j = nextJob"
          by (meson distinct_map inj_onD)
        with \<open>jobOk j\<close> idle show "jobOk (spread j ?u)"
          by (simp add: jobOk_def spread_def)
      qed
      have fl': "list_all (\<lambda>j. id' j \<in> set (inFlight s @ [id' nextJob]) \<longrightarrow> status j = PROCESSING) ?js"
        using fl by (auto simp: list_all_iff updateJob_def spread_def)
      show ?thesis
        unfolding st inv_def using ids d sub ok' df fsub notin fl' c mem by auto
    qed
  qed
qed

lemma inv_OnProgress:
  assumes "inv U js fl"
  shows "inv U (updateJob js jobId [ProgressMessage (Some msg)]) fl"
proof -
  let ?u = "[ProgressMessage (Some msg)]"
  let ?js = "updateJob js jobId ?u"
  have ids: "map id' ?js = map id' js"
    by (rule ids_updateJob) (simp add: spread_def)
  have c: "processingCount ?js = processingCount js"
    by (rule count_updateJob_same) (simp add: spread_def)
  have ok: "list_all jobOk ?js"
    using assms by (intro list_all_updateJob) (simp_all add: inv_def jobOk_def spread_def)
  have fl: "list_all (\<lambda>j. id' j \<in> set fl \<longrightarrow> status j = PROCESSING) ?js"
    using assms by (intro list_all_updateJob) (simp_all add: inv_def spread_def)
  show ?thesis
    unfolding inv_def using assms ids c ok fl by (simp add: inv_def)
qed

lemma inv_settle:
  assumes "inv U js fl" and "jobId \<in> set fl"
    and u: "u = [Status COMPLETED, VideoUri (Some uri), ProgressMessage (Some m)]
            \<or> u = [Status FAILED, Error (Some e)]"
  shows "inv U (updateJob js jobId u) (remove1 jobId fl)"
proof -
  let ?js = "updateJob js jobId u"
  from assms(1) have d: "distinct (map id' js)" and sub: "set (map id' js) \<subseteq> U"
    and ok: "list_all jobOk js" and df: "distinct fl"
    and fsub: "set fl \<subseteq> U" "set fl \<subseteq> set (map id' js)"
    and fl: "list_all (\<lambda>j. id' j \<in> set fl \<longrightarrow> status j = PROCESSING) js"
    and c: "processingCount js \<le> MAX_CONCURRENT_JOBS"
    by (simp_all add: inv_def)
  have ids: "map id' ?js = map id' js"
    using u by (intro ids_updateJob) (auto simp: spread_def)
  have c': "processingCount ?js \<le> processingCount js"
    using u by (intro count_updateJob_le) (auto simp: spread_def)
  have ok': "list_all jobOk ?js"
  proof (rule list_all_updateJob [OF ok])
    fix j assume "j \<in> set js" "id' j = jobId" "jobOk j"
    with fl assms(2) have "status j = PROCESSING" by (auto simp: list_all_iff)
    with \<open>jobOk j\<close> u show "jobOk (spread j u)"
      by (auto simp: jobOk_def spread_def)
  qed
  have gone: "jobId \<notin> set (remove1 jobId fl)"
    using df by simp
  have fl': "list_all (\<lambda>j. id' j \<in> set (remove1 jobId fl) \<longrightarrow> status j = PROCESSING) ?js"
    using fl gone u df by (auto simp: list_all_iff updateJob_def spread_def)
  have "set (remove1 jobId fl) \<subseteq> U" "set (remove1 jobId fl) \<subseteq> set (map id' js)"
    using fsub set_remove1_subset by fastforce+
  then show ?thesis
    unfolding inv_def using ids d sub ok' df fl' c c' by simp
qed

lemma inv_remove1:
  assumes "inv U js fl"
  shows "inv U js (remove1 jobId fl)"
proof -
  have "set (remove1 jobId fl) \<subseteq> set fl"
    by (rule set_remove1_subset)
  with assms show ?thesis
    unfolding inv_def list_all_iff by auto
qed

lemma inv_Settled:
  assumes "inv U (jobs s) (inFlight s)"
  shows "inv U (jobs (step s (Settled jobId res))) (inFlight (step s (Settled jobId res)))"
proof (cases "jobId \<in> set (inFlight s)")
  case False
  with assms show ?thesis by simp
next
  case True
  note settle = inv_settle [OF assms True]
  show ?thesis
  proof (cases res)
    case (Inr uri)
    with True settle show ?thesis by (simp add: onFulfilled_def)
  next
    case (Inl e)
    show ?thesis
    proof (cases "errorMessageOf e")
      case None
      with True Inl inv_remove1 [OF assms] show ?thesis
        by (simp add: onRejected_def)
    next
      case (Some errorMessage)
      with True Inl settle show ?thesis
        by (simp add: onRejected_def)
    qed
  qed
qed

lemma inv_append:
  assumes "inv U js fl" and "i \<notin> U" and "jobOk j" and "status j = IDLE" and "id' j = i"
  shows "inv (insert i U) (js @ [j]) fl"
  using assms by (auto simp: inv_def processingCount_def list_all_iff)

lemma inv_mono: "inv U js fl \<Longrightarrow> U \<subseteq> V \<Longrightarrow> inv V js fl"
  by (auto simp: inv_def)

lemma count_removeJob: "processingCount (removeJob js i) \<le> processingCount js"
  by (induction js) (auto simp: processingCount_def removeJob_def)

lemma inv_Remove:
  assumes "inv U js fl"
  shows "inv U (clickRemove js k) fl"
proof (cases "k < length js \<and> deleteButtonRendered (js ! k)")
  case False
  with assms show ?thesis
    by (auto simp: clickRemove_def)
next
  case True
  let ?i = "id' (js ! k)"
  from True have r: "clickRemove js k = removeJob js ?i"
    by (simp add: clickRemove_def)
  from assms True have "?i \<notin> set fl"
    by (auto simp: inv_def list_all_iff deleteButtonRendered_def)
  with assms have "set fl \<subseteq> set (map id' (removeJob js ?i))"
    by (fastforce simp: inv_def removeJob_def image_iff subset_iff)
  with assms count_removeJob [of js ?i] show ?thesis
    unfolding r by (auto simp: inv_def list_all_iff removeJob_def distinct_map_filter)
qed

lemma inv_step:
  assumes "inv U (jobs s) (inFlight s)" and "set (eventUuids e) \<inter> U = {}"
  shows "inv (U \<union> set (eventUuids e)) (jobs (step s e)) (inFlight (step s e))"
proof (cases e)
  case KeyReady
  with assms show ?thesis by simp
next
  case ToggleQueue
  with assms show ?thesis by simp
next
  case (SubmitJob uuid now p it m ar f)
  with assms inv_append [of U "jobs s" "inFlight s" uuid "newJob uuid now p it m ar f"]
  show ?thesis
    by (auto simp: addJob_def newJob_def jobOk_def intro: inv_mono)
next
  case (ClickRemove k)
  with assms inv_Remove show ?thesis by simp
next
  case (ClickDuplicate k uuid now)
  show ?thesis
  proof (cases "apiKeyReady s \<and> k < length (jobs s)")
    case True
    then show ?thesis
      using assms ClickDuplicate
        inv_append [of U "jobs s" "inFlight s" uuid
          "(jobs s ! k)\<lparr>id' := uuid, createdAt := now, status := IDLE,
             error := None, videoUri := None, progressMessage := None, startTime := None\<rparr>"]
      by (simp add: clickDuplicate_def duplicateJob_def jobOk_def)
  next
    case False
    then show ?thesis
      using assms ClickDuplicate by (auto simp: clickDuplicate_def intro: inv_mono)
  qed
next
  case (Tick now)
  with assms inv_Tick show ?thesis by simp
next
  case (OnProgress jobId msg)
  with assms inv_OnProgress show ?thesis by simp
next
  case (Settled jobId res)
  with assms inv_Settled show ?thesis by simp
qed

lemma inv_run:
  "distinct (uuids evs) \<Longrightarrow>
     inv (set (uuids evs)) (jobs (run initial evs)) (inFlight (run initial evs))"
proof (induction evs rule: rev_induct)
  case Nil
  then show ?case
    by (simp add: run_def uuids_def inv_def initial_def processingCount_def
        MAX_CONCURRENT_JOBS_def)
next
  case (snoc e evs)
  let ?s = "run initial evs"
  from snoc have "inv (set (uuids evs)) (jobs ?s) (inFlight ?s)"
    and "set (eventUuids e) \<inter> set (uuids evs) = {}"
    by (auto simp: uuids_def)
  then have "inv (set (uuids evs) \<union> set (eventUuids e)) (jobs (step ?s e)) (inFlight (step ?s e))"
    by (rule inv_step)
  then show ?case by (simp add: run_def uuids_def)
qed

section \<open>The concurrency cap\<close>

text \<open>
  Claim C1. Whatever the user and the scheduler do (submissions, removals, duplications,
  ticks, progress reports and settled calls, in any order), the store never holds more
  than \<open>MAX_CONCURRENT_JOBS\<close> jobs in Processing, and that constant is 4. The
  identifiers returned by \<^verbatim>\<open>uuidv4()\<close> are taken to be pairwise distinct.
\<close>

theorem processing_at_most_MAX_CONCURRENT:
  "distinct (uuids evs) \<Longrightarrow>
     length (filter (\<lambda>j. status j = PROCESSING) (jobs (run initial evs))) \<le> MAX_CONCURRENT_JOBS
     \<and> MAX_CONCURRENT_JOBS = 4"
  using inv_run [of evs] by (simp add: inv_def processingCount_def MAX_CONCURRENT_JOBS_def)

theorem processing_at_most_MAX_CONCURRENT_witness:
  "distinct (uuids demoEvents)
   \<and> map status (jobs (run initial demoEvents))
       = [PROCESSING, PROCESSING, PROCESSING, PROCESSING, IDLE]
   \<and> length (filter (\<lambda>j. status j = PROCESSING) (jobs (run initial demoEvents)))
       \<le> MAX_CONCURRENT_JOBS"
proof -
  have d: "distinct (uuids demoEvents)"
    by (simp add: demoEvents_def uuids_def)
  have e: "map status (jobs (run initial demoEvents))
       = [PROCESSING, PROCESSING, PROCESSING, PROCESSING, IDLE]"
    by code_simp
  from processing_at_most_MAX_CONCURRENT [OF d] d e show ?thesis by simp
qed

section \<open>One launch per tick, first Idle job first\<close>

lemma in_set_updateJob:
  "j' \<in> set (updateJob js i u) \<Longrightarrow>
     \<exists>j\<in>set js. (id' j \<noteq> i \<and> j' = j) \<or> (id' j = i \<and> j' = spread j u)"
  by (auto simp: updateJob_def split: if_splits)

lemma updateJob_nth:
  "k < length js \<Longrightarrow>
     updateJob js i u ! k = (if id' (js ! k) = i then spread (js ! k) u else js ! k)"
  by (simp add: updateJob_def)

lemma processQueue_cases:
  assumes d: "distinct (map id' js)" and pq: "processQueue js now = (js', launched)"
  shows "(launched = None \<and> js' = js)
     \<or> (\<exists>k<length js. launched = Some (js ! k) \<and> status (js ! k) = IDLE
           \<and> (\<forall>i<k. status (js ! i) \<noteq> IDLE)
           \<and> length (filter (\<lambda>j. status j = PROCESSING) js) < MAX_CONCURRENT_JOBS
           \<and> js' = js[k := (js ! k)\<lparr>status := PROCESSING, startTime := Some now,
                                    progressMessage := Some ''Initializing...''\<rparr>])"
proof (cases launched)
  case None
  with pq show ?thesis
    by (auto simp: processQueue_def Let_def split: if_splits option.splits)
next
  case (Some nextJob)
  let ?u = "[Status PROCESSING, StartTime (Some now), ProgressMessage (Some ''Initializing...'')]"
  from pq Some have free: "length (filter (\<lambda>j. status j = PROCESSING) js) < MAX_CONCURRENT_JOBS"
    and f: "find (\<lambda>j. status j = IDLE) js = Some nextJob"
    and js': "js' = updateJob js (id' nextJob) ?u"
    by (auto simp: processQueue_def Let_def split: if_splits option.splits)
  from f obtain k where k: "k < length js" "status (js ! k) = IDLE" "nextJob = js ! k"
    "\<forall>i<k. status (js ! i) \<noteq> IDLE"
    by (auto simp: find_Some_iff)
  have "js' = js[k := (js ! k)\<lparr>status := PROCESSING, startTime := Some now,
                                    progressMessage := Some ''Initializing...''\<rparr>]"
  proof (rule nth_equalityI)
    show "length js' = length (js[k := (js ! k)\<lparr>status := PROCESSING, startTime := Some now,
                                    progressMessage := Some ''Initializing...''\<rparr>])"
      by (simp add: js' updateJob_def)
  next
    fix i assume "i < length js'"
    then have i: "i < length js" by (simp add: js' updateJob_def)
    have "id' (js ! i) = id' (js ! k) \<longleftrightarrow> i = k"
      using d i k(1) nth_eq_iff_index_eq [of "map id' js" i k] by auto
    then show "js' ! i = js[k := (js ! k)\<lparr>status := PROCESSING, startTime := Some now,
                                    progressMessage := Some ''Initializing...''\<rparr>] ! i"
      using i k(1) by (auto simp: js' k(3) updateJob_nth spread_def)
  qed
  with k free Some show ?thesis by blast
qed


lemma length_filter_mono:
  "(\<And>x. x \<in> set xs \<Longrightarrow> P x \<Longrightarrow> Q x) \<Longrightarrow> length (filter P xs) \<le> length (filter Q xs)"
  by (induction xs) auto

lemma length_filter_eq_upt: "length (filter (\<lambda>i. i = k) [0..<n]) \<le> 1"
  by (induction n) auto

lemma takeWhile_filter_subset:
  "a \<in> set (filter P xs) \<Longrightarrow>
     set (takeWhile (\<lambda>x. x \<noteq> a) (filter P xs)) \<subseteq> set (takeWhile (\<lambda>x. x \<noteq> a) xs)"
  by (induction xs) auto

lemma not_before_at_indices:
  assumes "distinct xs" and "a < b" and "b < length xs"
  shows "xs ! b \<notin> set (takeWhile (\<lambda>x. x \<noteq> xs ! a) xs)"
proof
  let ?n = "length (takeWhile (\<lambda>x. x \<noteq> xs ! a) xs)"
  assume "xs ! b \<in> set (takeWhile (\<lambda>x. x \<noteq> xs ! a) xs)"
  then have "xs ! b \<in> set (take ?n xs)"
    by (simp add: takeWhile_eq_take [symmetric])
  then obtain i where i: "i < ?n" "i < length xs" "xs ! i = xs ! b"
    by (auto simp: in_set_conv_nth)
  have "?n \<le> a"
  proof (rule ccontr)
    assume "\<not> ?n \<le> a"
    then have "a < ?n" by simp
    then have "takeWhile (\<lambda>x. x \<noteq> xs ! a) xs ! a \<in> set (takeWhile (\<lambda>x. x \<noteq> xs ! a) xs)"
      by (rule nth_mem)
    moreover from \<open>a < ?n\<close> have "takeWhile (\<lambda>x. x \<noteq> xs ! a) xs ! a = xs ! a"
      by (rule takeWhile_nth)
    ultimately show False
      by (auto dest: set_takeWhileD)
  qed
  with i assms have "i \<noteq> b" by simp
  with i assms show False
    by (simp add: nth_eq_iff_index_eq)
qed

lemma first_idle_is_before:
  assumes "distinct (map id' js)" and "find (\<lambda>j. status j = IDLE) js = Some nb"
    and "ja \<in> set js" and "status ja = IDLE" and "id' ja \<noteq> id' nb"
  shows "id' nb \<in> set (takeWhile (\<lambda>x. x \<noteq> id' ja) (map id' js))"
  using assms
proof (induction js)
  case Nil
  then show ?case by simp
next
  case (Cons j js)
  show ?case
  proof (cases "status j = IDLE")
    case True
    with Cons.prems show ?thesis by auto
  next
    case False
    with Cons.prems have "ja \<in> set js" and "find (\<lambda>j. status j = IDLE) js = Some nb"
      by auto
    moreover from Cons.prems \<open>ja \<in> set js\<close> have "id' j \<noteq> id' ja"
      by auto
    ultimately show ?thesis
      using Cons by auto
  qed
qed

lemma fifoInv_same_ids_status:
  assumes "fifoInv ida idb js" and "map id' js' = map id' js"
    and "\<And>ja' jb'. ja' \<in> set js' \<Longrightarrow> jb' \<in> set js' \<Longrightarrow> id' ja' = ida \<Longrightarrow> id' jb' = idb
          \<Longrightarrow> status jb' \<noteq> IDLE \<Longrightarrow> status ja' \<noteq> IDLE"
  shows "fifoInv ida idb js'"
  unfolding fifoInv_def
proof (intro conjI ballI impI)
  assume "ida \<in> set (map id' js')"
  with assms(1,2) show "idb \<notin> set (takeWhile (\<lambda>x. x \<noteq> ida) (map id' js'))"
    by (simp add: fifoInv_def)
next
  fix ja' jb'
  assume "ja' \<in> set js'" "jb' \<in> set js'"
    and "id' ja' = ida \<and> id' jb' = idb \<and> status jb' \<noteq> IDLE"
  then show "status ja' \<noteq> IDLE"
    using assms(3) by blast
qed


lemma fifoInv_append:
  assumes "fifoInv ida idb js" and "id' j \<noteq> ida" and "id' j \<noteq> idb"
  shows "fifoInv ida idb (js @ [j])"
  unfolding fifoInv_def
proof (intro conjI ballI impI)
  assume "ida \<in> set (map id' (js @ [j]))"
  with assms(2) have m: "ida \<in> set (map id' js)"
    by auto
  then have "takeWhile (\<lambda>x. x \<noteq> ida) (map id' js @ [id' j])
      = takeWhile (\<lambda>x. x \<noteq> ida) (map id' js)"
    by (intro takeWhile_append1) auto
  with assms(1) m show "idb \<notin> set (takeWhile (\<lambda>x. x \<noteq> ida) (map id' (js @ [j])))"
    by (simp add: fifoInv_def)
next
  fix ja jb
  assume "ja \<in> set (js @ [j])" "jb \<in> set (js @ [j])"
    and c: "id' ja = ida \<and> id' jb = idb \<and> status jb \<noteq> IDLE"
  with assms(2,3) have "ja \<in> set js" "jb \<in> set js"
    by auto
  with assms(1) c show "status ja \<noteq> IDLE"
    unfolding fifoInv_def by blast
qed

lemma fifoInv_removeJob:
  assumes "fifoInv ida idb js"
  shows "fifoInv ida idb (removeJob js r)"
proof -
  have m: "map id' (removeJob js r) = filter (\<lambda>x. x \<noteq> r) (map id' js)"
    by (simp add: removeJob_def filter_map comp_def)
  have "idb \<notin> set (takeWhile (\<lambda>x. x \<noteq> ida) (map id' (removeJob js r)))"
    if "ida \<in> set (map id' (removeJob js r))"
  proof -
    from that have "ida \<in> set (map id' js)"
      by (auto simp: removeJob_def)
    with assms have "idb \<notin> set (takeWhile (\<lambda>x. x \<noteq> ida) (map id' js))"
      by (simp add: fifoInv_def)
    with takeWhile_filter_subset [of ida "\<lambda>x. x \<noteq> r" "map id' js"] that show ?thesis
      unfolding m by blast
  qed
  moreover have "set (removeJob js r) \<subseteq> set js"
    by (auto simp: removeJob_def)
  ultimately show ?thesis
    using assms unfolding fifoInv_def by blast
qed

lemma fifoInv_updateJob:
  assumes f: "fifoInv ida idb js"
    and keep: "\<And>j. id' (spread j u) = id' j"
    and st: "\<And>j. status (spread j u) \<noteq> IDLE \<or> status (spread j u) = status j"
    and b: "\<And>jb ja. jb \<in> set js \<Longrightarrow> id' jb = idb \<Longrightarrow> i = idb \<Longrightarrow> status jb = IDLE \<Longrightarrow>
              status (spread jb u) \<noteq> IDLE \<Longrightarrow> ja \<in> set js \<Longrightarrow> id' ja = ida \<Longrightarrow>
              status ja \<noteq> IDLE"
  shows "fifoInv ida idb (updateJob js i u)"
proof (rule fifoInv_same_ids_status [OF f])
  show "map id' (updateJob js i u) = map id' js"
    using keep by (rule ids_updateJob)
next
  fix ja' jb'
  assume a': "ja' \<in> set (updateJob js i u)" and b': "jb' \<in> set (updateJob js i u)"
    and ids: "id' ja' = ida" "id' jb' = idb" and nb: "status jb' \<noteq> IDLE"
  from in_set_updateJob [OF a'] obtain ja where ja: "ja \<in> set js"
    "ja' = ja \<or> ja' = spread ja u"
    by blast
  from in_set_updateJob [OF b'] obtain jb where jb: "jb \<in> set js"
    "(id' jb \<noteq> i \<and> jb' = jb) \<or> (id' jb = i \<and> jb' = spread jb u)"
    by blast
  from ja ids keep have ia: "id' ja = ida" by auto
  from jb ids keep have ib: "id' jb = idb" by auto
  have "status ja \<noteq> IDLE"
  proof (cases "status jb = IDLE")
    case False
    with f ja(1) jb(1) ia ib show ?thesis
      by (auto simp: fifoInv_def)
  next
    case True
    with jb nb ib have "i = idb" "status (spread jb u) \<noteq> IDLE"
      by auto
    with b [OF jb(1) ib _ True _ ja(1) ia] show ?thesis
      by simp
  qed
  with ja(2) st [of ja] show "status ja' \<noteq> IDLE"
    by auto
qed

lemma fifoInv_step:
  assumes i: "inv U (jobs s) (inFlight s)" and U: "ida \<in> U" "idb \<in> U" and ne: "ida \<noteq> idb"
    and fresh: "set (eventUuids e) \<inter> U = {}" and f: "fifoInv ida idb (jobs s)"
  shows "fifoInv ida idb (jobs (step s e))"
proof (cases e)
  case KeyReady
  with f show ?thesis by simp
next
  case ToggleQueue
  with f show ?thesis by simp
next
  case (SubmitJob uuid now p it m ar fl)
  with fresh U have "uuid \<noteq> ida" "uuid \<noteq> idb" by auto
  then have "fifoInv ida idb (jobs s @ [newJob uuid now p it m ar fl])"
    by (intro fifoInv_append [OF f]) (simp_all add: newJob_def)
  with f SubmitJob show ?thesis
    by (simp add: addJob_def)
next
  case (ClickRemove k)
  with f fifoInv_removeJob [OF f] show ?thesis
    by (simp add: clickRemove_def)
next
  case (ClickDuplicate k uuid now)
  with fresh U have "uuid \<noteq> ida" "uuid \<noteq> idb" by auto
  then have "fifoInv ida idb (duplicateJob (jobs s) j uuid now)" for j
    unfolding duplicateJob_def Let_def by (intro fifoInv_append [OF f]) simp_all
  with f ClickDuplicate show ?thesis
    by (simp add: clickDuplicate_def)
next
  case (Tick now)
  let ?u = "[Status PROCESSING, StartTime (Some now), ProgressMessage (Some ''Initializing...'')]"
  have "fifoInv ida idb (updateJob (jobs s) (id' nextJob) ?u)"
    if nj: "find (\<lambda>j. status j = IDLE) (jobs s) = Some nextJob" for nextJob
  proof (rule fifoInv_updateJob [OF f])
    fix jb ja
    assume "id' nextJob = idb" and ja: "ja \<in> set (jobs s)" "id' ja = ida"
    show "status ja \<noteq> IDLE"
    proof
      assume "status ja = IDLE"
      with i nj ja ne \<open>id' nextJob = idb\<close>
      have "idb \<in> set (takeWhile (\<lambda>x. x \<noteq> ida) (map id' (jobs s)))"
        using first_idle_is_before [of "jobs s" nextJob ja] by (simp add: inv_def)
      with f ja show False
        by (auto simp: fifoInv_def)
    qed
  qed (simp_all add: spread_def)
  then have "fifoInv ida idb (fst (processQueue (jobs s) now))"
    using f by (simp add: processQueue_def Let_def split: option.splits)
  moreover have "jobs (step s (Tick now)) = jobs s
      \<or> jobs (step s (Tick now)) = fst (processQueue (jobs s) now)"
    by (auto split: prod.splits option.splits)
  ultimately show ?thesis
    using f Tick by auto
next
  case (OnProgress jobId msg)
  have "fifoInv ida idb (updateJob (jobs s) jobId [ProgressMessage (Some msg)])"
    by (rule fifoInv_updateJob [OF f]) (simp_all add: spread_def)
  with f OnProgress show ?thesis by simp
next
  case (Settled jobId res)
  show ?thesis
  proof (cases "jobId \<in> set (inFlight s)")
    case False
    with f Settled show ?thesis by simp
  next
    case True
    have u: "fifoInv ida idb (updateJob (jobs s) jobId u)"
      if "u = [Status COMPLETED, VideoUri (Some uri), ProgressMessage (Some m)]
            \<or> u = [Status FAILED, Error (Some x)]" for u uri m x
    proof (rule fifoInv_updateJob [OF f])
      fix jb ja :: Job
      assume "jb \<in> set (jobs s)" "id' jb = idb" "jobId = idb" "status jb = IDLE"
      with i True show "status ja \<noteq> IDLE"
        by (auto simp: inv_def list_all_iff)
    qed (use that in \<open>auto simp: spread_def\<close>)
    show ?thesis
    proof (cases res)
      case (Inl x)
      show ?thesis
      proof (cases "errorMessageOf x")
        case None
        with Settled True Inl f show ?thesis
          by (simp add: onRejected_def)
      next
        case (Some errorMessage)
        with Settled True Inl u [of _ _ _ errorMessage]
          u [of _ _ _ "''API Key Invalid or Expired. Please select key again.''"]
        show ?thesis
          by (simp add: onRejected_def)
      qed
    next
      case (Inr uri)
      with Settled True u [of _ uri "''Completed''"] show ?thesis
        by (simp add: onFulfilled_def)
    qed
  qed
qed

lemma fifoInv_start:
  assumes "distinct (map id' js)" and "a < b" and "b < length js"
    and "status (js ! b) = IDLE"
  shows "fifoInv (id' (js ! a)) (id' (js ! b)) js"
proof -
  have "id' (js ! b) \<notin> set (takeWhile (\<lambda>x. x \<noteq> id' (js ! a)) (map id' js))"
    using not_before_at_indices [of "map id' js" a b] assms by simp
  moreover have "jb = js ! b" if "jb \<in> set js" "id' jb = id' (js ! b)" for jb
    using that assms by (metis distinct_map inj_onD nth_mem)
  ultimately show ?thesis
    using assms(4) by (auto simp: fifoInv_def)
qed

lemma fifoInv_run:
  assumes "distinct (uuids (evs @ evs'))" and "ida \<in> set (uuids evs)" "idb \<in> set (uuids evs)"
    and "ida \<noteq> idb" and "fifoInv ida idb (jobs (run initial evs))"
  shows "fifoInv ida idb (jobs (run initial (evs @ evs')))"
  using assms(1)
proof (induction evs' rule: rev_induct)
  case Nil
  with assms show ?case by simp
next
  case (snoc e evs')
  let ?s = "run initial (evs @ evs')"
  from snoc.prems have d: "distinct (uuids (evs @ evs'))"
    and fresh: "set (eventUuids e) \<inter> set (uuids (evs @ evs')) = {}"
    by (auto simp: uuids_def)
  from d have "inv (set (uuids (evs @ evs'))) (jobs ?s) (inFlight ?s)"
    by (rule inv_run)
  moreover have "ida \<in> set (uuids (evs @ evs'))" "idb \<in> set (uuids (evs @ evs'))"
    using assms(2,3) by (auto simp: uuids_def)
  ultimately have "fifoInv ida idb (jobs (step ?s e))"
    using assms(4) fresh snoc.IH [OF d] by (intro fifoInv_step)
  then show ?case
    by (simp add: run_def)
qed

text \<open>
  Claim C3. A tick on a reachable store changes at most one job. When it launches a job,
  that job is the first Idle job of the store, in insertion order, and only that job
  changes (to Processing). So of two jobs that are Idle at the tick, the later one stays
  Idle: it is never launched ahead of the earlier one. And whatever happens afterwards,
  the later one has not left Idle at any time at which the earlier one is still in the
  store and Idle.
\<close>

theorem tick_launches_first_idle_only:
  assumes "distinct (uuids (evs @ later))"
    and "processQueue (jobs (run initial evs)) now = (js', launched)"
  shows "length js' = length (jobs (run initial evs))
     \<and> length (filter (\<lambda>k. js' ! k \<noteq> jobs (run initial evs) ! k) [0..<length js']) \<le> 1
     \<and> (launched = None \<longrightarrow> js' = jobs (run initial evs))
     \<and> (\<forall>nextJob. launched = Some nextJob \<longrightarrow>
           (\<exists>k<length js'. jobs (run initial evs) ! k = nextJob \<and> status nextJob = IDLE
              \<and> (\<forall>i<k. status (jobs (run initial evs) ! i) \<noteq> IDLE)
              \<and> status (js' ! k) = PROCESSING
              \<and> (\<forall>i<length js'. i \<noteq> k \<longrightarrow> js' ! i = jobs (run initial evs) ! i)))
     \<and> (\<forall>a b. a < b \<and> b < length js' \<and> status (jobs (run initial evs) ! a) = IDLE
             \<and> status (jobs (run initial evs) ! b) = IDLE \<longrightarrow>
           status (js' ! b) = IDLE
           \<and> (status (js' ! b) = PROCESSING \<longrightarrow> status (js' ! a) = PROCESSING)
           \<and> (\<forall>ja\<in>set (jobs (run initial (evs @ later))).
                \<forall>jb\<in>set (jobs (run initial (evs @ later))).
                  id' ja = id' (jobs (run initial evs) ! a)
                  \<and> id' jb = id' (jobs (run initial evs) ! b)
                  \<and> status jb \<noteq> IDLE \<longrightarrow> status ja \<noteq> IDLE))"
proof -
  let ?js = "jobs (run initial evs)"
  from assms(1) have dist: "distinct (uuids evs)"
    by (simp add: uuids_def)
  from inv_run [OF dist] have d: "distinct (map id' ?js)"
    and sub: "set (map id' ?js) \<subseteq> set (uuids evs)"
    by (simp_all add: inv_def)
  have later: "status ja \<noteq> IDLE"
    if ab: "a < b" "b < length ?js" "status (?js ! b) = IDLE"
      and ja: "ja \<in> set (jobs (run initial (evs @ later)))" "id' ja = id' (?js ! a)"
      and jb: "jb \<in> set (jobs (run initial (evs @ later)))" "id' jb = id' (?js ! b)"
        "status jb \<noteq> IDLE"
    for a b ja jb
  proof -
    from d ab have "fifoInv (id' (?js ! a)) (id' (?js ! b)) ?js"
      by (intro fifoInv_start)
    moreover from d ab have "id' (?js ! a) \<noteq> id' (?js ! b)"
      using nth_eq_iff_index_eq [of "map id' ?js" a b] by simp
    moreover from sub ab have "id' (?js ! a) \<in> set (uuids evs)" "id' (?js ! b) \<in> set (uuids evs)"
      by auto
    ultimately have "fifoInv (id' (?js ! a)) (id' (?js ! b)) (jobs (run initial (evs @ later)))"
      using assms(1) by (intro fifoInv_run)
    with ja jb show ?thesis
      unfolding fifoInv_def by blast
  qed
  from processQueue_cases [OF d assms(2)] show ?thesis
  proof (elim disjE conjE exE)
    assume none: "launched = None" "js' = ?js"
    have "\<forall>ja\<in>set (jobs (run initial (evs @ later))).
            \<forall>jb\<in>set (jobs (run initial (evs @ later))).
              id' ja = id' (?js ! a) \<and> id' jb = id' (?js ! b)
              \<and> status jb \<noteq> IDLE \<longrightarrow> status ja \<noteq> IDLE"
      if "a < b" "b < length ?js" "status (?js ! b) = IDLE" for a b
      using later [OF that] by blast
    with none show ?thesis by simp blast
  next
    fix k
    assume k: "k < length ?js" "launched = Some (?js ! k)" "status (?js ! k) = IDLE"
      "\<forall>i<k. status (?js ! i) \<noteq> IDLE"
      and js': "js' = ?js[k := (?js ! k)\<lparr>status := PROCESSING, startTime := Some now,
                                    progressMessage := Some ''Initializing...''\<rparr>]"
    have len: "length js' = length ?js" by (simp add: js')
    have other: "js' ! i = ?js ! i" if "i \<noteq> k" for i
      using that by (simp add: js')
    have "length (filter (\<lambda>i. js' ! i \<noteq> ?js ! i) [0..<length js'])
        \<le> length (filter (\<lambda>i. i = k) [0..<length js'])"
      using other by (intro length_filter_mono) auto
    also have "\<dots> \<le> 1" by (rule length_filter_eq_upt)
    finally have one: "length (filter (\<lambda>i. js' ! i \<noteq> ?js ! i) [0..<length js']) \<le> 1" .
    have fifo: "status (js' ! b) = IDLE" if "a < b" "status (?js ! a) = IDLE"
      "status (?js ! b) = IDLE" for a b
    proof -
      from k(4) that(2) have "k \<le> a" by (meson not_le_imp_less)
      with that(1) have "b \<noteq> k" by simp
      with other that(3) show ?thesis by simp
    qed
    have first: "\<exists>k<length js'. ?js ! k = nextJob \<and> status nextJob = IDLE
              \<and> (\<forall>i<k. status (?js ! i) \<noteq> IDLE)
              \<and> status (js' ! k) = PROCESSING
              \<and> (\<forall>i<length js'. i \<noteq> k \<longrightarrow> js' ! i = ?js ! i)"
      if "launched = Some nextJob" for nextJob
      using that k other len by (intro exI [of _ k]) (simp add: js')
    have pair: "status (js' ! b) = IDLE
           \<and> (status (js' ! b) = PROCESSING \<longrightarrow> status (js' ! a) = PROCESSING)
           \<and> (\<forall>ja\<in>set (jobs (run initial (evs @ later))).
                \<forall>jb\<in>set (jobs (run initial (evs @ later))).
                  id' ja = id' (?js ! a) \<and> id' jb = id' (?js ! b)
                  \<and> status jb \<noteq> IDLE \<longrightarrow> status ja \<noteq> IDLE)"
      if "a < b" "b < length js'" "status (?js ! a) = IDLE" "status (?js ! b) = IDLE" for a b
      using that fifo [of a b] later [of a b] len by auto
    from k(2) have "launched \<noteq> None" by simp
    with len one first pair show ?thesis
      by blast
  qed
qed

theorem tick_launches_first_idle_only_witness:
  "distinct (uuids (twoIdle @ [Tick 10]))
   \<and> map status (jobs (run initial twoIdle)) = [IDLE, IDLE]
   \<and> map_option id' (snd (processQueue (jobs (run initial twoIdle)) 10)) = Some ''a''
   \<and> map status (fst (processQueue (jobs (run initial twoIdle)) 10)) = [PROCESSING, IDLE]
   \<and> map status (jobs (run initial (twoIdle @ [Tick 10]))) = [PROCESSING, IDLE]
   \<and> length (fst (processQueue (jobs (run initial twoIdle)) 10))
       = length (jobs (run initial twoIdle))"
proof -
  have d: "distinct (uuids (twoIdle @ [Tick 10]))"
    by (simp add: twoIdle_def uuids_def)
  have pq: "processQueue (jobs (run initial twoIdle)) 10
      = (fst (processQueue (jobs (run initial twoIdle)) 10),
         snd (processQueue (jobs (run initial twoIdle)) 10))"
    by simp
  have e1: "map status (jobs (run initial twoIdle)) = [IDLE, IDLE]"
    by code_simp
  have e2: "map_option id' (snd (processQueue (jobs (run initial twoIdle)) 10)) = Some ''a''"
    by code_simp
  have e3: "map status (fst (processQueue (jobs (run initial twoIdle)) 10))
      = [PROCESSING, IDLE]"
    by code_simp
  have e4: "map status (jobs (run initial (twoIdle @ [Tick 10]))) = [PROCESSING, IDLE]"
    by code_simp
  from tick_launches_first_idle_only [OF d pq] d e1 e2 e3 e4 show ?thesis
    by blast
qed

section \<open>Duplication\<close>

text \<open>
  Claim C5. Duplicating a job appends one job to the store. Its id is the new uuid, its
  createdAt the current time, its status Idle; it has no videoUri, no error, no
  progressMessage and no startTime; prompt, inputType, model, aspectRatio and resolution
  are those of the job duplicated. This holds for every job, a Completed one with a
  result included.
\<close>

theorem duplicateJob_fresh_idle_copy:
  "\<exists>newJob. duplicateJob prev job uuid now = prev @ [newJob]
     \<and> id' newJob = uuid \<and> createdAt newJob = now \<and> status newJob = IDLE
     \<and> videoUri newJob = None \<and> error newJob = None \<and> progressMessage newJob = None
     \<and> startTime newJob = None
     \<and> prompt newJob = prompt job \<and> inputType newJob = inputType job
     \<and> model newJob = model job \<and> aspectRatio newJob = aspectRatio job
     \<and> resolution newJob = resolution job"
  by (simp add: duplicateJob_def)

section \<open>Removal\<close>

text \<open>
  Claim C8. The remove action on a job of the store leaves the store as it is while the
  job is Processing (its card has no delete button). When the job is Idle, Completed or
  Failed the action removes it: neither the job nor any job with its id is in the store
  afterwards.
\<close>

theorem clickRemove_rejected_while_processing:
  "k < length js \<Longrightarrow>
     (status (js ! k) = PROCESSING \<longrightarrow> clickRemove js k = js)
     \<and> (status (js ! k) \<in> {IDLE, COMPLETED, FAILED} \<longrightarrow>
          js ! k \<notin> set (clickRemove js k)
          \<and> id' (js ! k) \<notin> id' ` set (clickRemove js k))"
  by (auto simp: clickRemove_def deleteButtonRendered_def removeJob_def)

theorem clickRemove_rejected_while_processing_witness:
  "(1::nat) < length [jobA, jobB\<lparr>status := PROCESSING\<rparr>]
   \<and> clickRemove [jobA, jobB\<lparr>status := PROCESSING\<rparr>] 1
       = [jobA, jobB\<lparr>status := PROCESSING\<rparr>]
   \<and> (0::nat) < length [jobA, jobB\<lparr>status := PROCESSING\<rparr>]
   \<and> jobA \<notin> set (clickRemove [jobA, jobB\<lparr>status := PROCESSING\<rparr>] 0)
   \<and> clickRemove [jobA, jobB\<lparr>status := PROCESSING\<rparr>] 0 = [jobB\<lparr>status := PROCESSING\<rparr>]"
proof -
  let ?js = "[jobA, jobB\<lparr>status := PROCESSING\<rparr>]"
  have l1: "(1::nat) < length ?js" and l0: "(0::nat) < length ?js"
    by simp_all
  have p: "status (?js ! 1) = PROCESSING"
    by simp
  have i: "status (?js ! 0) \<in> {IDLE, COMPLETED, FAILED}"
    by (simp add: jobA_def newJob_def)
  have r: "clickRemove ?js 0 = [jobB\<lparr>status := PROCESSING\<rparr>]"
    by (simp add: clickRemove_def deleteButtonRendered_def removeJob_def jobA_def jobB_def
        newJob_def)
  from clickRemove_rejected_while_processing [OF l1] p
  have "clickRemove ?js 1 = ?js"
    by blast
  moreover from clickRemove_rejected_while_processing [OF l0] i
  have "jobA \<notin> set (clickRemove ?js 0)"
    by (metis nth_Cons_0)
  ultimately show ?thesis
    using l1 l0 r by simp
qed

section \<open>Partial update\<close>

text \<open>
  The merge, field by field: a field that the update names takes the value given (the
  last one, if the update names it more than once), and every other field keeps its
  value.
\<close>

lemma spread_snoc: "spread j (u @ [f]) = assign (spread j u) f"
  by (simp add: spread_def)

lemma spread_fields:
  "id' (spread j u) = last (id' j # [v. Id v \<leftarrow> u])
     \<and> createdAt (spread j u) = last (createdAt j # [v. CreatedAt v \<leftarrow> u])
     \<and> status (spread j u) = last (status j # [v. Status v \<leftarrow> u])
     \<and> prompt (spread j u) = last (prompt j # [v. Prompt v \<leftarrow> u])
     \<and> inputType (spread j u) = last (inputType j # [v. InputTypeF v \<leftarrow> u])
     \<and> model (spread j u) = last (model j # [v. Model v \<leftarrow> u])
     \<and> aspectRatio (spread j u) = last (aspectRatio j # [v. AspectRatioF v \<leftarrow> u])
     \<and> resolution (spread j u) = last (resolution j # [v. ResolutionF v \<leftarrow> u])
     \<and> imageFile (spread j u) = last (imageFile j # [v. ImageFile v \<leftarrow> u])
     \<and> videoUri (spread j u) = last (videoUri j # [v. VideoUri v \<leftarrow> u])
     \<and> error (spread j u) = last (error j # [v. Error v \<leftarrow> u])
     \<and> progress (spread j u) = last (progress j # [v. Progress v \<leftarrow> u])
     \<and> startTime (spread j u) = last (startTime j # [v. StartTime v \<leftarrow> u])
     \<and> progressMessage (spread j u) = last (progressMessage j # [v. ProgressMessage v \<leftarrow> u])"
proof (induction u rule: rev_induct)
  case Nil
  then show ?case by (simp add: spread_def)
next
  case (snoc f u)
  then show ?case by (cases f) (simp_all add: spread_snoc)
qed

text \<open>
  Claim C9. \<^verbatim>\<open>updateJob\<close> on an id that no job of the store has returns the store as
  it is; nothing is raised (the function is total). In general the store keeps its
  length and order, and every job with another id is unchanged. In every job with the
  given id each field that the update names has the given value afterwards, and each
  field that it does not name has the value it had.
\<close>

theorem updateJob_merges_matching_job_only:
  "((\<forall>j\<in>set prev. id' j \<noteq> i) \<longrightarrow> updateJob prev i updates = prev)
   \<and> length (updateJob prev i updates) = length prev
   \<and> (\<forall>k<length prev. id' (prev ! k) \<noteq> i \<longrightarrow> updateJob prev i updates ! k = prev ! k)
   \<and> (\<forall>k<length prev. id' (prev ! k) = i \<longrightarrow>
          id' (updateJob prev i updates ! k)
              = last (id' (prev ! k) # [v. Id v \<leftarrow> updates])
          \<and> createdAt (updateJob prev i updates ! k)
              = last (createdAt (prev ! k) # [v. CreatedAt v \<leftarrow> updates])
          \<and> status (updateJob prev i updates ! k)
              = last (status (prev ! k) # [v. Status v \<leftarrow> updates])
          \<and> prompt (updateJob prev i updates ! k)
              = last (prompt (prev ! k) # [v. Prompt v \<leftarrow> updates])
          \<and> inputType (updateJob prev i updates ! k)
              = last (inputType (prev ! k) # [v. InputTypeF v \<leftarrow> updates])
          \<and> model (updateJob prev i updates ! k)
              = last (model (prev ! k) # [v. Model v \<leftarrow> updates])
          \<and> aspectRatio (updateJob prev i updates ! k)
              = last (aspectRatio (prev ! k) # [v. AspectRatioF v \<leftarrow> updates])
          \<and> resolution (updateJob prev i updates ! k)
              = last (resolution (prev ! k) # [v. ResolutionF v \<leftarrow> updates])
          \<and> imageFile (updateJob prev i updates ! k)
              = last (imageFile (prev ! k) # [v. ImageFile v \<leftarrow> updates])
          \<and> videoUri (updateJob prev i updates ! k)
              = last (videoUri (prev ! k) # [v. VideoUri v \<leftarrow> updates])
          \<and> error (updateJob prev i updates ! k)
              = last (error (prev ! k) # [v. Error v \<leftarrow> updates])
          \<and> progress (updateJob prev i updates ! k)
              = last (progress (prev ! k) # [v. Progress v \<leftarrow> updates])
          \<and> startTime (updateJob prev i updates ! k)
              = last (startTime (prev ! k) # [v. StartTime v \<leftarrow> updates])
          \<and> progressMessage (updateJob prev i updates ! k)
              = last (progressMessage (prev ! k) # [v. ProgressMessage v \<leftarrow> updates]))"
proof (intro conjI allI impI)
  assume "\<forall>j\<in>set prev. id' j \<noteq> i"
  then show "updateJob prev i updates = prev"
    by (rule updateJob_absent)
next
  show "length (updateJob prev i updates) = length prev"
    by (simp add: updateJob_def)
next
  fix k assume "k < length prev" "id' (prev ! k) \<noteq> i"
  then show "updateJob prev i updates ! k = prev ! k"
    by (simp add: updateJob_nth)
qed (simp_all add: updateJob_nth spread_fields)

theorem updateJob_merges_matching_job_only_witness:
  "updateJob [jobA, jobB] ''zz'' [Status FAILED, Error (Some ''gone'')] = [jobA, jobB]
   \<and> updateJob [jobA, jobB] ''b'' [Status FAILED, Error (Some ''gone'')] ! 0 = jobA
   \<and> status (updateJob [jobA, jobB] ''b'' [Status FAILED, Error (Some ''gone'')] ! 1) = FAILED
   \<and> error (updateJob [jobA, jobB] ''b'' [Status FAILED, Error (Some ''gone'')] ! 1)
       = Some ''gone''
   \<and> prompt (updateJob [jobA, jobB] ''b'' [Status FAILED, Error (Some ''gone'')] ! 1) = ''dog''
   \<and> videoUri (updateJob [jobA, jobB] ''b'' [Status FAILED, Error (Some ''gone'')] ! 1) = None"
proof -
  let ?u = "[Status FAILED, Error (Some ''gone'')]"
  note t = updateJob_merges_matching_job_only [of "[jobA, jobB]" _ ?u]
  have a: "\<forall>j\<in>set [jobA, jobB]. id' j \<noteq> ''zz''"
    by (simp add: jobA_def jobB_def newJob_def)
  have k: "(0::nat) < length [jobA, jobB]" "(1::nat) < length [jobA, jobB]"
    by simp_all
  have ids: "id' ([jobA, jobB] ! 0) \<noteq> ''b''" "id' ([jobA, jobB] ! 1) = ''b''"
    by (simp_all add: jobA_def jobB_def newJob_def)
  from t [of "''zz''"] a have "updateJob [jobA, jobB] ''zz'' ?u = [jobA, jobB]"
    by blast
  moreover from t [of "''b''"] k(1) ids(1) have "updateJob [jobA, jobB] ''b'' ?u ! 0 = jobA"
    by (metis nth_Cons_0)
  moreover from t [of "''b''"] k(2) ids(2)
  have "status (updateJob [jobA, jobB] ''b'' ?u ! 1) = last (status ([jobA, jobB] ! 1) # [v. Status v \<leftarrow> ?u])"
    and "error (updateJob [jobA, jobB] ''b'' ?u ! 1) = last (error ([jobA, jobB] ! 1) # [v. Error v \<leftarrow> ?u])"
    and "prompt (updateJob [jobA, jobB] ''b'' ?u ! 1) = last (prompt ([jobA, jobB] ! 1) # [v. Prompt v \<leftarrow> ?u])"
    and "videoUri (updateJob [jobA, jobB] ''b'' ?u ! 1) = last (videoUri ([jobA, jobB] ! 1) # [v. VideoUri v \<leftarrow> ?u])"
    by blast+
  ultimately show ?thesis
    by (simp add: jobB_def newJob_def)
qed

section \<open>Result and error\<close>

lemma in_set_processQueue:
  "j' \<in> set (fst (processQueue js now)) \<Longrightarrow>
     \<exists>j\<in>set js. j' = j \<or> j' = j\<lparr>status := PROCESSING, startTime := Some now,
                                    progressMessage := Some ''Initializing...''\<rparr>"
  by (auto simp: processQueue_def Let_def spread_def split: if_splits option.splits
      dest!: in_set_updateJob)

lemma in_set_clickRemove: "j' \<in> set (clickRemove js k) \<Longrightarrow> j' \<in> set js"
  by (auto simp: clickRemove_def removeJob_def split: if_splits)

lemma in_set_clickDuplicate:
  "j' \<in> set (clickDuplicate js k uuid now) \<Longrightarrow>
     j' \<in> set js \<or> (status j' = IDLE \<and> videoUri j' = None \<and> error j' = None)"
  by (auto simp: clickDuplicate_def duplicateJob_def split: if_splits)

lemma result_set_on_success_only:
  assumes "inv U (jobs s) (inFlight s)" and "j' \<in> set (jobs (step s e))"
    and "videoUri j' \<noteq> None"
  shows "\<exists>j\<in>set (jobs s). id' j = id' j'
     \<and> (videoUri j = videoUri j'
        \<or> status j = PROCESSING \<and> status j' = COMPLETED
          \<and> (\<exists>uri. e = Settled (id' j) (Inr uri) \<and> videoUri j' = Some uri))"
proof (cases e)
  case KeyReady
  with assms show ?thesis by auto
next
  case ToggleQueue
  with assms show ?thesis by (auto split: if_splits)
next
  case (SubmitJob uuid now p it m ar f)
  with assms show ?thesis by (fastforce simp: addJob_def newJob_def split: if_splits)
next
  case (ClickRemove k)
  with assms show ?thesis by (fastforce split: if_splits dest: in_set_clickRemove)
next
  case (ClickDuplicate k uuid now)
  with assms show ?thesis by (fastforce split: if_splits dest: in_set_clickDuplicate)
next
  case (Tick now)
  have "jobs (step s (Tick now)) = jobs s \<or> jobs (step s (Tick now)) = fst (processQueue (jobs s) now)"
    by (auto split: prod.splits option.splits)
  with assms Tick show ?thesis
    by (fastforce dest!: in_set_processQueue)
next
  case (OnProgress jobId msg)
  with assms show ?thesis
    by (fastforce simp: spread_def split: if_splits dest!: in_set_updateJob)
next
  case (Settled jobId res)
  show ?thesis
  proof (cases "jobId \<in> set (inFlight s)")
    case False
    with assms Settled show ?thesis by auto
  next
    case True
    from assms(1) have fl: "\<And>j. j \<in> set (jobs s) \<Longrightarrow> id' j = jobId \<Longrightarrow> status j = PROCESSING"
      using True by (auto simp: inv_def list_all_iff)
    show ?thesis
    proof (cases res)
      case (Inl x)
      with assms Settled True show ?thesis
        by (fastforce simp: onRejected_def spread_def split: if_splits option.splits dest!: in_set_updateJob)
    next
      case (Inr uri)
      with assms Settled True fl show ?thesis
        by (fastforce simp: onFulfilled_def spread_def dest!: in_set_updateJob)
    qed
  qed
qed

lemma error_set_on_failure_only:
  assumes "inv U (jobs s) (inFlight s)" and "j' \<in> set (jobs (step s e))"
    and "error j' \<noteq> None"
  shows "\<exists>j\<in>set (jobs s). id' j = id' j'
     \<and> (error j = error j'
        \<or> status j = PROCESSING \<and> status j' = FAILED
          \<and> (\<exists>x. e = Settled (id' j) (Inl x)))"
proof (cases e)
  case KeyReady
  with assms show ?thesis by auto
next
  case ToggleQueue
  with assms show ?thesis by (auto split: if_splits)
next
  case (SubmitJob uuid now p it m ar f)
  with assms show ?thesis by (fastforce simp: addJob_def newJob_def split: if_splits)
next
  case (ClickRemove k)
  with assms show ?thesis by (fastforce split: if_splits dest: in_set_clickRemove)
next
  case (ClickDuplicate k uuid now)
  with assms show ?thesis by (fastforce split: if_splits dest: in_set_clickDuplicate)
next
  case (Tick now)
  have "jobs (step s (Tick now)) = jobs s \<or> jobs (step s (Tick now)) = fst (processQueue (jobs s) now)"
    by (auto split: prod.splits option.splits)
  with assms Tick show ?thesis
    by (fastforce dest!: in_set_processQueue)
next
  case (OnProgress jobId msg)
  with assms show ?thesis
    by (fastforce simp: spread_def split: if_splits dest!: in_set_updateJob)
next
  case (Settled jobId res)
  show ?thesis
  proof (cases "jobId \<in> set (inFlight s)")
    case False
    with assms Settled show ?thesis by auto
  next
    case True
    from assms(1) have fl: "\<And>j. j \<in> set (jobs s) \<Longrightarrow> id' j = jobId \<Longrightarrow> status j = PROCESSING"
      using True by (auto simp: inv_def list_all_iff)
    show ?thesis
    proof (cases res)
      case (Inl x)
      with assms Settled True fl show ?thesis
        by (fastforce simp: onRejected_def spread_def split: if_splits option.splits dest!: in_set_updateJob)
    next
      case (Inr uri)
      with assms Settled True show ?thesis
        by (fastforce simp: onFulfilled_def spread_def dest!: in_set_updateJob)
    qed
  qed
qed

text \<open>
  Claim C4. In every reachable state no job has both a videoUri and an error: a job with
  a videoUri is Completed and a job with an error is Failed. And whatever happens next,
  a job that has a videoUri afterwards either had the same one before, or was Processing
  and has just become Completed because its call resolved with that value; a job that
  has an error afterwards either had the same one before, or was Processing and has just
  become Failed because its call was rejected.
\<close>

theorem videoUri_and_error_never_both:
  assumes "distinct (uuids evs)"
  shows "(\<forall>j\<in>set (jobs (run initial evs)).
            \<not> (videoUri j \<noteq> None \<and> error j \<noteq> None)
            \<and> (videoUri j \<noteq> None \<longrightarrow> status j = COMPLETED)
            \<and> (error j \<noteq> None \<longrightarrow> status j = FAILED))
     \<and> (\<forall>j'\<in>set (jobs (step (run initial evs) e)). videoUri j' \<noteq> None \<longrightarrow>
          (\<exists>j\<in>set (jobs (run initial evs)). id' j = id' j'
             \<and> (videoUri j = videoUri j'
                \<or> status j = PROCESSING \<and> status j' = COMPLETED
                  \<and> (\<exists>uri. e = Settled (id' j) (Inr uri) \<and> videoUri j' = Some uri))))
     \<and> (\<forall>j'\<in>set (jobs (step (run initial evs) e)). error j' \<noteq> None \<longrightarrow>
          (\<exists>j\<in>set (jobs (run initial evs)). id' j = id' j'
             \<and> (error j = error j'
                \<or> status j = PROCESSING \<and> status j' = FAILED
                  \<and> (\<exists>x. e = Settled (id' j) (Inl x)))))"
proof -
  note i = inv_run [OF assms]
  then have "list_all jobOk (jobs (run initial evs))"
    by (simp add: inv_def)
  then have "\<forall>j\<in>set (jobs (run initial evs)).
            \<not> (videoUri j \<noteq> None \<and> error j \<noteq> None)
            \<and> (videoUri j \<noteq> None \<longrightarrow> status j = COMPLETED)
            \<and> (error j \<noteq> None \<longrightarrow> status j = FAILED)"
    by (auto simp: list_all_iff jobOk_def)
  with result_set_on_success_only [OF i] error_set_on_failure_only [OF i]
  show ?thesis by blast
qed

theorem videoUri_and_error_never_both_witness:
  "distinct (uuids settledRun)
   \<and> map status (jobs (run initial settledRun)) = [COMPLETED, FAILED]
   \<and> map videoUri (jobs (run initial settledRun))
       = [Some ''https://videos/1?alt=media&key=K'', None]
   \<and> map error (jobs (run initial settledRun)) = [None, Some ''quota exceeded'']
   \<and> list_all (\<lambda>j. videoUri j = None \<or> error j = None) (jobs (run initial settledRun))
   \<and> map status (jobs (run initial (twoIdle @ [Tick 10, Tick 11])))
       = [PROCESSING, PROCESSING]
   \<and> map videoUri (jobs (step (run initial (twoIdle @ [Tick 10, Tick 11]))
          (Settled ''a'' (Inr ''https://videos/1?alt=media&key=K''))))
       = [Some ''https://videos/1?alt=media&key=K'', None]
   \<and> map status (jobs (step (run initial (twoIdle @ [Tick 10, Tick 11]))
          (Settled ''a'' (Inr ''https://videos/1?alt=media&key=K''))))
       = [COMPLETED, PROCESSING]"
proof -
  have d: "distinct (uuids settledRun)"
    by (simp add: settledRun_def twoIdle_def uuids_def)
  have e1: "map status (jobs (run initial settledRun)) = [COMPLETED, FAILED]"
    by code_simp
  have e2: "map videoUri (jobs (run initial settledRun))
       = [Some ''https://videos/1?alt=media&key=K'', None]"
    by code_simp
  have e3: "map error (jobs (run initial settledRun)) = [None, Some ''quota exceeded'']"
    by code_simp
  have e4: "map status (jobs (run initial (twoIdle @ [Tick 10, Tick 11])))
       = [PROCESSING, PROCESSING]"
    by code_simp
  have e5: "map videoUri (jobs (step (run initial (twoIdle @ [Tick 10, Tick 11]))
          (Settled ''a'' (Inr ''https://videos/1?alt=media&key=K''))))
       = [Some ''https://videos/1?alt=media&key=K'', None]"
    by code_simp
  have e6: "map status (jobs (step (run initial (twoIdle @ [Tick 10, Tick 11]))
          (Settled ''a'' (Inr ''https://videos/1?alt=media&key=K''))))
       = [COMPLETED, PROCESSING]"
    by code_simp
  from videoUri_and_error_never_both [OF d, of KeyReady]
  have "list_all (\<lambda>j. videoUri j = None \<or> error j = None) (jobs (run initial settledRun))"
    unfolding list_all_iff by blast
  with d e1 e2 e3 e4 e5 e6 show ?thesis
    by blast
qed

section \<open>What a finished call returns\<close>

text \<open>
  When the loop ends with an operation, that operation is the first answer of the
  service that is done.
\<close>

lemma pollLoop_first_done_aux:
  assumes "pollLoop env attempts operation msgs = Some y"
  shows "\<forall>m finished. y = (m, Inr finished) \<longrightarrow>
     (\<exists>n. polled env attempts n operation = Inr finished \<and> op_done finished
        \<and> (\<forall>k<n. \<exists>pending. polled env attempts k operation = Inr pending
              \<and> \<not> op_done pending))"
proof (rule pollLoop.raw_induct
    [where P = "\<lambda>env attempts operation msgs y. \<forall>m finished. y = (m, Inr finished) \<longrightarrow>
       (\<exists>n. polled env attempts n operation = Inr finished \<and> op_done finished
          \<and> (\<forall>k<n. \<exists>pending. polled env attempts k operation = Inr pending
                \<and> \<not> op_done pending))",
     OF _ assms])
  fix loop :: "Env \<Rightarrow> nat \<Rightarrow> Operation \<Rightarrow> string list
      \<Rightarrow> (string list \<times> (thrown + Operation)) option"
    and env :: Env and attempts :: nat and operation :: Operation and msgs :: "string list"
    and y :: "string list \<times> (thrown + Operation)"
  assume IH: "\<And>a b c d y. loop a b c d = Some y \<Longrightarrow>
      \<forall>m finished. y = (m, Inr finished) \<longrightarrow>
       (\<exists>n. polled a b n c = Inr finished \<and> op_done finished
          \<and> (\<forall>k<n. \<exists>pending. polled a b k c = Inr pending \<and> \<not> op_done pending))"
    and body: "(if op_done operation then Some (msgs, Inr operation)
      else case getVideosOperation env (attempts + 1) operation of
           Inl e \<Rightarrow>
             Some (msgs @ [''Generating video... (''
                     @ string_of_nat ((attempts + 1) * (5000 div 1000)) @ ''s elapsed)''],
                   Inl e)
           | Inr operation' \<Rightarrow>
               loop env (attempts + 1) operation'
                (msgs @ [''Generating video... (''
                   @ string_of_nat ((attempts + 1) * (5000 div 1000)) @ ''s elapsed)''])) =
     Some y"
  show "\<forall>m finished. y = (m, Inr finished) \<longrightarrow>
       (\<exists>n. polled env attempts n operation = Inr finished \<and> op_done finished
          \<and> (\<forall>k<n. \<exists>pending. polled env attempts k operation = Inr pending
                \<and> \<not> op_done pending))"
  proof (intro allI impI)
    fix m finished assume y: "y = (m, Inr finished)"
    show "\<exists>n. polled env attempts n operation = Inr finished \<and> op_done finished
          \<and> (\<forall>k<n. \<exists>pending. polled env attempts k operation = Inr pending
                \<and> \<not> op_done pending)"
    proof (cases "op_done operation")
      case True
      with body y have "finished = operation" by simp
      with True show ?thesis
        by (intro exI [of _ 0]) simp
    next
      case False
      with body y obtain operation' where g: "getVideosOperation env (attempts + 1) operation = Inr operation'"
        and l: "loop env (attempts + 1) operation'
                (msgs @ [''Generating video... (''
                   @ string_of_nat ((attempts + 1) * (5000 div 1000)) @ ''s elapsed)''])
              = Some (m, Inr finished)"
        by (auto split: sum.splits)
      from IH [OF l] obtain n where n: "polled env (attempts + 1) n operation' = Inr finished"
        "op_done finished"
        "\<forall>k<n. \<exists>pending. polled env (attempts + 1) k operation' = Inr pending
              \<and> \<not> op_done pending"
        by blast
      have "\<exists>pending. polled env attempts k operation = Inr pending \<and> \<not> op_done pending"
        if "k < Suc n" for k
      proof (cases k)
        case 0
        with False show ?thesis by simp
      next
        case (Suc k')
        with that n(3) g show ?thesis by simp
      qed
      with n g show ?thesis
        by (intro exI [of _ "Suc n"]) simp
    qed
  qed
qed

lemma pollLoop_first_done:
  assumes "pollLoop env attempts operation msgs = Some (m, Inr finished)"
  shows "\<exists>n. polled env attempts n operation = Inr finished \<and> op_done finished
        \<and> (\<forall>k<n. \<exists>pending. polled env attempts k operation = Inr pending
              \<and> \<not> op_done pending)"
  using pollLoop_first_done_aux [OF assms] by blast

lemma generateVideoForJob_resolved:
  assumes "generateVideoForJob env job = Some r" and "outcome r = Inr v"
  shows "\<exists>apiKey req operation msgs (finished :: Operation) uri.
       API_KEY env = Some apiKey \<and> apiKey \<noteq> []
     \<and> videoRequest env job = Inr req \<and> generateVideos env req = Inr operation
     \<and> pollLoop env 0 operation
          [''Uploading input data...'', ''Sending generation request...'']
         = Some (msgs, Inr finished)
     \<and> op_error finished = None \<and> op_videoUri finished = Some uri \<and> uri \<noteq> []
     \<and> v = uri @ ''&key='' @ apiKey"
proof -
  from assms obtain apiKey where k: "API_KEY env = Some apiKey" "apiKey \<noteq> []"
    by (auto simp: generateVideoForJob_def noApiKey_def split: option.splits if_splits)
  with assms obtain req where req: "videoRequest env job = Inr req"
    by (cases "videoRequest env job") (auto simp: generateVideoForJob_def)
  with assms k obtain operation where op: "generateVideos env req = Inr operation"
    by (cases "generateVideos env req") (auto simp: generateVideoForJob_def)
  with assms k req obtain msgs and finished :: Operation where
    p: "pollLoop env 0 operation [''Uploading input data...'', ''Sending generation request...'']
       = Some (msgs, Inr finished)"
    and v: "videoResult apiKey finished = Inr v"
    by (auto simp: generateVideoForJob_def split: option.splits sum.splits)
  from v obtain uri where u: "op_error finished = None"
    "op_videoUri finished = Some uri" "uri \<noteq> []" "v = uri @ ''&key='' @ apiKey"
    by (auto simp: videoResult_def split: option.splits if_splits)
  show ?thesis
    by (rule exI [of _ apiKey], rule exI [of _ req], rule exI [of _ operation],
        rule exI [of _ msgs], rule exI [of _ finished], rule exI [of _ uri])
      (use k req op p u in simp)
qed

text \<open>
  Claim C10. When the call for a job resolves, the operation that
  \<^verbatim>\<open>generateVideos\<close> returned for the job's request was polled until the service
  first answered with a done operation, and the value the call resolves with is the
  video URI of that operation followed by \<^verbatim>\<open>&key=\<close> and the API key read at the
  start of the call. So it is never the operation's URI itself. The scheduler stores
  exactly this value as the videoUri of the job with that id, which becomes Completed.
\<close>

theorem stored_videoUri_carries_api_key:
  assumes "generateVideoForJob env nextJob = Some r" and "outcome r = Inr v"
  shows "\<exists>apiKey req operation n (finished :: Operation) uri.
       API_KEY env = Some apiKey \<and> apiKey \<noteq> []
     \<and> videoRequest env nextJob = Inr req \<and> generateVideos env req = Inr operation
     \<and> polled env 0 n operation = Inr finished \<and> op_done finished
     \<and> (\<forall>k<n. \<exists>pending. polled env 0 k operation = Inr pending \<and> \<not> op_done pending)
     \<and> op_error finished = None \<and> op_videoUri finished = Some uri \<and> uri \<noteq> []
     \<and> v = uri @ ''&key='' @ apiKey \<and> v \<noteq> uri
     \<and> jobs (onFulfilled s (id' nextJob) v)
         = map (\<lambda>j. if id' j = id' nextJob
                     then j\<lparr>status := COMPLETED, videoUri := Some (uri @ ''&key='' @ apiKey),
                            progressMessage := Some ''Completed''\<rparr>
                     else j) (jobs s)"
proof -
  from generateVideoForJob_resolved [OF assms]
  obtain apiKey req operation msgs and finished :: Operation and uri where
    *: "API_KEY env = Some apiKey" "videoRequest env nextJob = Inr req"
       "generateVideos env req = Inr operation"
       "pollLoop env 0 operation [''Uploading input data...'', ''Sending generation request...'']
         = Some (msgs, Inr finished)"
       "op_videoUri finished = Some uri" "v = uri @ ''&key='' @ apiKey"
       "apiKey \<noteq> []" "op_error finished = None" "uri \<noteq> []"
    by blast
  from pollLoop_first_done [OF *(4)] obtain n where
    n: "polled env 0 n operation = Inr finished" "op_done finished"
       "\<forall>k<n. \<exists>pending. polled env 0 k operation = Inr pending \<and> \<not> op_done pending"
    by blast
  have st: "jobs (onFulfilled s (id' nextJob) v)
         = map (\<lambda>j. if id' j = id' nextJob
                     then j\<lparr>status := COMPLETED, videoUri := Some (uri @ ''&key='' @ apiKey),
                            progressMessage := Some ''Completed''\<rparr>
                     else j) (jobs s)"
    by (simp add: onFulfilled_def updateJob_def spread_def *(6))
  have ne: "v \<noteq> uri"
    by (simp add: *(6))
  show ?thesis
    by (rule exI [of _ apiKey], rule exI [of _ req], rule exI [of _ operation],
        rule exI [of _ n], rule exI [of _ finished], rule exI [of _ uri])
      (use * n st ne in simp)
qed

theorem stored_videoUri_carries_api_key_witness:
  "generateVideoForJob demoEnv jobImg = Some imgResult
   \<and> outcome imgResult = Inr ''https://videos/1?alt=media&key=K''
   \<and> API_KEY demoEnv = Some ''K''
   \<and> generateVideos demoEnv imgRequest = Inr pendingOperation
   \<and> polled demoEnv 0 1 pendingOperation = Inr pendingOperation
   \<and> polled demoEnv 0 2 pendingOperation = Inr doneOperation
   \<and> op_videoUri doneOperation = Some ''https://videos/1?alt=media''
   \<and> (\<exists>uri. ''https://videos/1?alt=media&key=K'' = uri @ ''&key='' @ ''K'')
   \<and> map videoUri (jobs (onFulfilled \<lparr>jobs = [jobA, jobImg], apiKeyReady = True,
          isQueueRunning = True, inFlight = [''i'']\<rparr> ''i'' ''https://videos/1?alt=media&key=K''))
       = [None, Some ''https://videos/1?alt=media&key=K'']"
proof -
  have g: "generateVideoForJob demoEnv jobImg = Some imgResult"
    by code_simp
  have out: "outcome imgResult = Inr ''https://videos/1?alt=media&key=K''"
    by (simp add: imgResult_def)
  have key: "API_KEY demoEnv = Some ''K''"
    by (simp add: demoEnv_def)
  have sub: "generateVideos demoEnv imgRequest = Inr pendingOperation"
    by (simp add: demoEnv_def)
  have p1: "polled demoEnv 0 1 pendingOperation = Inr pendingOperation"
    by code_simp
  have p2: "polled demoEnv 0 2 pendingOperation = Inr doneOperation"
    by code_simp
  have uri: "op_videoUri doneOperation = Some ''https://videos/1?alt=media''"
    by (simp add: doneOperation_def)
  have st: "map videoUri (jobs (onFulfilled \<lparr>jobs = [jobA, jobImg], apiKeyReady = True,
          isQueueRunning = True, inFlight = [''i'']\<rparr> ''i'' ''https://videos/1?alt=media&key=K''))
       = [None, Some ''https://videos/1?alt=media&key=K'']"
    by code_simp
  from stored_videoUri_carries_api_key [OF g out] key
  have "\<exists>uri. ''https://videos/1?alt=media&key=K'' = uri @ ''&key='' @ ''K''"
    by auto
  with g out key sub p1 p2 uri st show ?thesis
    by blast
qed

section \<open>The submitted request\<close>

lemma videoRequest_fields:
  assumes "videoRequest env job = Inr req"
  shows "req_model req = model job \<and> numberOfVideos (config req) = 1
     \<and> cfg_aspectRatio (config req) = aspectRatio job
     \<and> cfg_resolution (config req) = R_720p
     \<and> (if inputType job = IMAGE \<and> imageFile job \<noteq> None
         then req_prompt req = (if prompt job = [] then None else Some (prompt job))
           \<and> (\<exists>file base64Image. imageFile job = Some file
                 \<and> fileToBas64 env file = Inr base64Image
                 \<and> req_image req = Some \<lparr>imageBytes = base64Image, mimeType = type' file\<rparr>)
         else req_prompt req = Some (prompt job) \<and> req_image req = None)"
proof (cases "inputType job = IMAGE \<and> imageFile job \<noteq> None")
  case True
  then obtain img where f: "imageFile job = Some img" by auto
  with True assms obtain b where "fileToBas64 env img = Inr b"
    and "req = \<lparr>req_model = model job,
                 req_prompt = (if prompt job = [] then None else Some (prompt job)),
                 req_image = Some \<lparr>imageBytes = b, mimeType = type' img\<rparr>,
                 config = \<lparr>numberOfVideos = 1, cfg_aspectRatio = aspectRatio job,
                           cfg_resolution = R_720p\<rparr>\<rparr>"
    by (auto simp: videoRequest_def split: sum.splits)
  with True f show ?thesis by simp
next
  case False
  with assms have "req = \<lparr>req_model = model job, req_prompt = Some (prompt job),
      req_image = None,
      config = \<lparr>numberOfVideos = 1, cfg_aspectRatio = aspectRatio job,
                cfg_resolution = R_720p\<rparr>\<rparr>"
    by (auto simp: videoRequest_def split: option.splits if_splits)
  with False show ?thesis by simp
qed

lemma submittedRequests_cases:
  assumes "req \<in> set (submittedRequests env job)"
  shows "submittedRequests env job = [req] \<and> videoRequest env job = Inr req"
proof (cases "API_KEY env")
  case None
  with assms show ?thesis
    by (simp add: submittedRequests_def)
next
  case (Some apiKey)
  with assms have "apiKey \<noteq> []"
    by (auto simp: submittedRequests_def)
  with assms Some show ?thesis
    by (cases "videoRequest env job") (simp_all add: submittedRequests_def)
qed


text \<open>The resolution of a request is the constant of \<^verbatim>\<open>commonConfig\<close>.\<close>

lemma submitted_resolution_is_720p:
  assumes "req \<in> set (submittedRequests env job)"
  shows "cfg_resolution (config req) = R_720p"
  using submittedRequests_cases [OF assms] videoRequest_fields [of env job req]
  by simp







section \<open>Errors of a call\<close>

text \<open>
  An error whose message matches one of the two signatures pauses the scheduler,
  invalidates the key and is shown as the rewritten message.
\<close>

lemma matched_error_pauses:
  assumes "errorMessageOf e = Some errorMessage" and "isApiKeyError errorMessage"
  shows "apiKeyReady (onRejected s jobId e) = False
     \<and> isQueueRunning (onRejected s jobId e) = False
     \<and> jobs (onRejected s jobId e) = updateJob (jobs s) jobId
          [Status FAILED, Error (Some ''API Key Invalid or Expired. Please select key again.'')]"
  using assms by (simp add: onRejected_def)

text \<open>
  Claim C2 fails for the missing credential. With no API key the call rejects with
  \<^verbatim>\<open>API Key not found. Please select a key.\<close>, which contains neither signature
  (\<^verbatim>\<open>includes("API key")\<close> is case-sensitive). The job fails with that raw message,
  the key stays ready, the queue keeps running, and the next tick launches the next job.
\<close>

theorem missing_api_key_not_detected:
  "generateVideoForJob (demoEnv\<lparr>API_KEY := None\<rparr>) jobA = Some noApiKey
   \<and> outcome noApiKey = Inl (Thrown (Str ''API Key not found. Please select a key.''))
   \<and> isApiKeyError ''API Key not found. Please select a key.'' = False
   \<and> map status (jobs launchedA) = [PROCESSING, IDLE]
   \<and> inFlight launchedA = [''a'']
   \<and> apiKeyReady (step launchedA (Settled ''a'' (outcome noApiKey))) = True
   \<and> isQueueRunning (step launchedA (Settled ''a'' (outcome noApiKey))) = True
   \<and> map error (jobs (step launchedA (Settled ''a'' (outcome noApiKey))))
       = [Some ''API Key not found. Please select a key.'', None]
   \<and> map status (jobs (step (step launchedA (Settled ''a'' (outcome noApiKey))) (Tick 11)))
       = [FAILED, PROCESSING]"
  by code_simp





end
